theory Spec2Isabelle
  imports Complex_Main "HOL-Library.Sublist"
begin

section \<open>Expression preprocessing of \<open>CalculatorEngine\<close>\<close>

text \<open>
  Expressions are Python strings, modelled as \<^typ>\<open>string\<close>. The evaluator's input
  contract is ASCII text, so one \<^typ>\<open>char\<close> stands for one code point.
\<close>

subsection \<open>Constant substitution: \<open>re.sub(r'\b' + name + r'\b', str(value), expression)\<close>\<close>

text \<open>
  The word characters of the regular expression class \<open>\w\<close> on ASCII text: letters,
  digits and the underscore.
\<close>

definition word_chars :: string where
  "word_chars =
     ''abcdefghijklmnopqrstuvwxyzABCDEFGHIJKLMNOPQRSTUVWXYZ0123456789_''"

definition is_word :: "char \<Rightarrow> bool" where
  "is_word c \<longleftrightarrow> c \<in> set word_chars"

text \<open>
  \<open>\b\<close> holds between two neighbouring positions when exactly one of them is a word
  character; the positions before the start and after the end of the text count as
  non-word.
\<close>

definition word_at :: "char option \<Rightarrow> bool" where
  "word_at p = (case p of None \<Rightarrow> False | Some c \<Rightarrow> is_word c)"

definition boundary :: "char option \<Rightarrow> char option \<Rightarrow> bool" where
  "boundary p n \<longleftrightarrow> word_at p \<noteq> word_at n"

definition first_char :: "string \<Rightarrow> char option" where
  "first_char s = (case s of [] \<Rightarrow> None | c # _ \<Rightarrow> Some c)"

text \<open>
  \<open>match_word name prev s\<close>: the pattern \<open>\bname\b\<close> matches at the start of \<open>s\<close>,
  where \<open>prev\<close> is the character of the scanned text just before \<open>s\<close>.
\<close>

definition match_word :: "string \<Rightarrow> char option \<Rightarrow> string \<Rightarrow> bool" where
  "match_word name prev s \<longleftrightarrow>
     boundary prev (first_char s) \<and> prefix name s \<and>
     boundary (Some (last name)) (first_char (drop (length name) s))"

text \<open>
  \<open>re.sub\<close> scans from the left, replaces each match by \<open>val\<close> and goes on behind it;
  where nothing matches the character is copied. The names of the constant table are
  not empty, so a match always consumes at least one character.
\<close>

function sub_word :: "string \<Rightarrow> string \<Rightarrow> char option \<Rightarrow> string \<Rightarrow> string" where
  "sub_word name val prev [] = []"
| "sub_word name val prev (c # cs) =
     (if match_word name prev (c # cs)
      then val @ sub_word name val (Some (last name)) (drop (length name - 1) cs)
      else c # sub_word name val (Some c) cs)"
  by pat_completeness auto
termination
  by (relation "measure (\<lambda>(name, val, prev, s). length s)") auto

text \<open>
  \<open>self.constants\<close>, in insertion order, each value as \<open>str(value)\<close> prints the double:
  \<open>math.pi\<close>, \<open>math.e\<close>, \<open>(1 + math.sqrt(5)) / 2\<close>, \<open>2 * math.pi\<close>, \<open>float('inf')\<close>.
\<close>

definition constants :: "(string \<times> string) list" where
  "constants =
     [(''pi'', ''3.141592653589793''),
      (''e'', ''2.718281828459045''),
      (''phi'', ''1.618033988749895''),
      (''tau'', ''6.283185307179586''),
      (''inf'', ''inf'')]"

definition subst_constants :: "string \<Rightarrow> string" where
  "subst_constants expression =
     fold (\<lambda>(name, val) e. sub_word name val None e) constants expression"

subsection \<open>\<open>_handle_special_functions\<close>\<close>

definition trig_funcs :: "string list" where
  "trig_funcs = [''sin'', ''cos'', ''tan'', ''cot'', ''sec'', ''csc'']"

text \<open>
  \<open>match_call func s\<close>: the pattern \<open>func\(([^\)]+)\)\<close> matches at the start of \<open>s\<close>;
  the result is the captured group and the text behind the match. The group is the
  longest run of characters other than \<open>)\<close>; it must not be empty and a \<open>)\<close> must
  follow it.
\<close>

definition match_call :: "string \<Rightarrow> string \<Rightarrow> (string \<times> string) option" where
  "match_call func s =
     (if prefix (func @ ''('') s then
        (let t = drop (length func + 1) s;
             arg = takeWhile (\<lambda>c. c \<noteq> CHR '')'') t;
             rest = dropWhile (\<lambda>c. c \<noteq> CHR '')'') t
         in if arg \<noteq> [] \<and> rest \<noteq> [] then Some (arg, tl rest) else None)
      else None)"

text \<open>
  \<open>re.sub(pattern, r'func(\1 * pi/180)', expression)\<close> for one function name.
\<close>

function sub_trig :: "string \<Rightarrow> string \<Rightarrow> string" where
  "sub_trig func [] = []"
| "sub_trig func (c # cs) =
     (case match_call func (c # cs) of
        Some (arg, rest) \<Rightarrow> func @ ''('' @ arg @ '' * pi/180)'' @ sub_trig func rest
      | None \<Rightarrow> c # sub_trig func cs)"
  by pat_completeness auto
termination
proof (relation "measure (\<lambda>(func, s). length s)")
  show "wf (measure (\<lambda>(func, s). length s))"
    by simp
next
  fix func :: string and c :: char and cs arg rest :: string
    and x2 :: "string \<times> string"
  let ?s = "c # cs"
  let ?t = "drop (length func + 1) ?s"
  let ?d = "dropWhile (\<lambda>c. c \<noteq> CHR '')'') ?t"
  assume "match_call func ?s = Some x2" and "(arg, rest) = x2"
  then have m: "match_call func ?s = Some (arg, rest)"
    by simp
  then have d: "?d \<noteq> []" and r: "rest = tl ?d"
    by (auto simp: match_call_def Let_def split: if_splits)
  have "length ?d \<le> length ?t"
    by (rule length_dropWhile_le)
  moreover have "length ?t \<le> length ?s"
    by simp
  moreover from d have "length (tl ?d) < length ?d"
    by (cases ?d) auto
  ultimately have "length rest < length ?s"
    using r by simp
  then show "((func, rest), (func, c # cs)) \<in> measure (\<lambda>(func, s). length s)"
    by simp
qed simp

definition handle_special_functions :: "string \<Rightarrow> string \<Rightarrow> string" where
  "handle_special_functions angle_mode expression =
     (if angle_mode = ''degrees''
      then fold sub_trig trig_funcs expression
      else expression)"

definition preprocess :: "string \<Rightarrow> string \<Rightarrow> string" where
  "preprocess angle_mode expression =
     handle_special_functions angle_mode (subst_constants expression)"

subsection \<open>Texts made of flat trig calls\<close>

text \<open>
  A text is free of openers when no trig name is directly followed by \<open>(\<close> in it: the
  pattern of \<open>_handle_special_functions\<close> cannot start a match inside.
\<close>

definition opener_free :: "string \<Rightarrow> bool" where
  "opener_free t \<longleftrightarrow> (\<forall>g\<in>set trig_funcs. \<not> sublist (g @ ''('') t)"

text \<open>
  A call is the text before it, the trig name and the argument. \<open>calls_text\<close> writes a
  list of calls and the text behind the last one as an expression, \<open>calls_text_degrees\<close>
  as the same expression with every argument multiplied by \<open>pi/180\<close>. A call is flat
  when the text before it is free of openers and its argument is not empty and has no
  parentheses. \<open>mark g\<close> is the effect of the pass for the name \<open>g\<close> on one call.
\<close>

type_synonym call = "string \<times> string \<times> string"

fun calls_text :: "call list \<Rightarrow> string \<Rightarrow> string" where
  "calls_text [] post = post"
| "calls_text ((pre, f, x) # calls) post = pre @ f @ ''('' @ x @ '')'' @ calls_text calls post"

fun calls_text_degrees :: "call list \<Rightarrow> string \<Rightarrow> string" where
  "calls_text_degrees [] post = post"
| "calls_text_degrees ((pre, f, x) # calls) post =
     pre @ f @ ''('' @ x @ '' * pi/180)'' @ calls_text_degrees calls post"

definition flat_call :: "call \<Rightarrow> bool" where
  "flat_call c \<longleftrightarrow>
     (case c of (pre, f, x) \<Rightarrow>
        opener_free pre \<and> f \<in> set trig_funcs \<and> x \<noteq> [] \<and>
        CHR ''('' \<notin> set x \<and> CHR '')'' \<notin> set x)"

definition mark :: "string \<Rightarrow> call \<Rightarrow> call" where
  "mark g c = (case c of (pre, f, x) \<Rightarrow> (pre, f, if f = g then x @ '' * pi/180'' else x))"

section \<open>The external computer-algebra library\<close>

text \<open>
  \<open>sympy\<close> is not part of the repository. What the engine uses of it is a parameter:
  \<^item> \<open>sympify\<close>: \<open>sp.sympify(text)\<close>; \<open>Inl\<close> carries the message of a raised exception;
  \<^item> \<open>evalf\<close>: the method \<open>.evalf()\<close>;
  \<^item> \<open>is_Float\<close>, \<open>is_Integer\<close>, \<open>is_Rational\<close>: the \<open>isinstance\<close> tests against
    \<open>sp.core.numbers.Float\<close>, \<open>Integer\<close> and \<open>Rational\<close>;
  \<^item> \<open>complex_number\<close>: the attribute \<open>sp.core.numbers.ComplexNumber\<close>. Reading an
    attribute that a module does not define raises \<open>AttributeError\<close>; \<open>Inl\<close> is its
    message, \<open>Inr\<close> the \<open>isinstance\<close> test against the class;
  \<^item> \<open>to_float\<close>, \<open>to_complex\<close>: Python's \<open>float(v)\<close> and \<open>complex(v)\<close>;
  \<^item> \<open>symbols\<close>: \<open>sp.symbols(name)\<close>;
  \<^item> \<open>solve_eq\<close>: \<open>sp.solve(sp.Eq(lhs, rhs), x)\<close>, the roots in the order returned;
  \<^item> \<open>zero\<close>: the integer \<open>0\<close> as \<open>sp.Eq\<close> receives it.
  \<open>'v\<close> is the type of the library's objects, \<open>'s\<close> of its symbols, \<open>'f\<close> of Python's
  doubles and \<open>'c\<close> of Python's complex numbers.
\<close>

record ('v, 's, 'f, 'c) sympy =
  sympify :: "string \<Rightarrow> string + 'v"
  evalf :: "'v \<Rightarrow> string + 'v"
  is_Float :: "'v \<Rightarrow> bool"
  is_Integer :: "'v \<Rightarrow> bool"
  is_Rational :: "'v \<Rightarrow> bool"
  complex_number :: "string + ('v \<Rightarrow> bool)"
  to_float :: "'v \<Rightarrow> string + 'f"
  to_complex :: "'v \<Rightarrow> string + 'c"
  symbols :: "string \<Rightarrow> string + 's"
  solve_eq :: "'v \<Rightarrow> 'v \<Rightarrow> 's \<Rightarrow> string + 'v list"
  zero :: 'v

text \<open>What \<open>evaluate\<close> and \<open>solve_equation\<close> hand back: a double, a complex number or
  an object of the library.\<close>

datatype ('v, 'f, 'c) py_value = PyFloat 'f | PyComplex 'c | PySym 'v

datatype error = MathError string

section \<open>\<open>CalculatorEngine.evaluate\<close>\<close>

text \<open>
  The body of the \<open>try\<close> block behind the preprocessing; \<open>Inl\<close> is the message of the
  exception that leaves it. The \<open>isinstance\<close> chain is tested in the source's order,
  and the class named in a test is looked up when the test is reached.
\<close>

definition classify ::
  "('v, 's, 'f, 'c) sympy \<Rightarrow> 'v \<Rightarrow> string + ('v, 'f, 'c) py_value" where
  "classify lib evaluated =
     (if is_Float lib evaluated then map_sum id PyFloat (to_float lib evaluated)
      else if is_Integer lib evaluated then map_sum id PyFloat (to_float lib evaluated)
      else if is_Rational lib evaluated then map_sum id PyFloat (to_float lib evaluated)
      else (case complex_number lib of
              Inl msg \<Rightarrow> Inl msg
            | Inr is_ComplexNumber \<Rightarrow>
                if is_ComplexNumber evaluated
                then map_sum id PyComplex (to_complex lib evaluated)
                else Inr (PySym evaluated)))"

definition evaluate_body ::
  "('v, 's, 'f, 'c) sympy \<Rightarrow> string \<Rightarrow> string \<Rightarrow> string + ('v, 'f, 'c) py_value" where
  "evaluate_body lib angle_mode expression =
     (case sympify lib (preprocess angle_mode expression) of
        Inl msg \<Rightarrow> Inl msg
      | Inr parsed \<Rightarrow>
          (case evalf lib parsed of
             Inl msg \<Rightarrow> Inl msg
           | Inr evaluated \<Rightarrow> classify lib evaluated))"

text \<open>\<open>except Exception as e: raise MathError(f"Error evaluating expression: {e}")\<close>\<close>

definition evaluate ::
  "('v, 's, 'f, 'c) sympy \<Rightarrow> string \<Rightarrow> string \<Rightarrow> error + ('v, 'f, 'c) py_value" where
  "evaluate lib angle_mode expression =
     (case evaluate_body lib angle_mode expression of
        Inl msg \<Rightarrow> Inl (MathError (''Error evaluating expression: '' @ msg))
      | Inr r \<Rightarrow> Inr r)"

section \<open>\<open>CalculatorEngine.solve_equation\<close>\<close>

text \<open>
  \<open>str.strip()\<close> removes the characters for which \<open>str.isspace\<close> holds from both ends;
  on ASCII text these are the space, \<open>\t \n \v \f \r\<close> and the four separators
  \<open>0x1C\<close> to \<open>0x1F\<close>.
\<close>

definition is_space :: "char \<Rightarrow> bool" where
  "is_space c \<longleftrightarrow>
     c \<in> {CHR 0x20, CHR 0x09, CHR 0x0A, CHR 0x0B, CHR 0x0C, CHR 0x0D,
          CHR 0x1C, CHR 0x1D, CHR 0x1E, CHR 0x1F}"

definition strip :: "string \<Rightarrow> string" where
  "strip s = rev (dropWhile is_space (rev (dropWhile is_space s)))"

text \<open>\<open>equation.split('=', 1)\<close> on a text that contains \<open>=\<close>: the parts before and
  behind the first \<open>=\<close>.\<close>

definition split_eq :: "string \<Rightarrow> string \<times> string" where
  "split_eq equation =
     (takeWhile (\<lambda>c. c \<noteq> CHR ''='') equation,
      tl (dropWhile (\<lambda>c. c \<noteq> CHR ''='') equation))"

text \<open>The loop over the solutions: \<open>float(sol)\<close>, and \<open>sol\<close> itself when that raises.\<close>

definition coerce_root :: "('v, 's, 'f, 'c) sympy \<Rightarrow> 'v \<Rightarrow> ('v, 'f, 'c) py_value" where
  "coerce_root lib sol = (case to_float lib sol of Inr f \<Rightarrow> PyFloat f | Inl _ \<Rightarrow> PySym sol)"

definition solve_equation_body ::
  "('v, 's, 'f, 'c) sympy \<Rightarrow> string \<Rightarrow> string \<Rightarrow> string + ('v, 'f, 'c) py_value list" where
  "solve_equation_body lib equation variable =
     (case symbols lib variable of
        Inl msg \<Rightarrow> Inl msg
      | Inr x \<Rightarrow>
          (if CHR ''='' \<in> set equation then
             (case split_eq equation of (left, right) \<Rightarrow>
                (case sympify lib (strip left) of
                   Inl msg \<Rightarrow> Inl msg
                 | Inr l \<Rightarrow>
                     (case sympify lib (strip right) of
                        Inl msg \<Rightarrow> Inl msg
                      | Inr r \<Rightarrow> map_sum id (map (coerce_root lib)) (solve_eq lib l r x))))
           else
             (case sympify lib equation of
                Inl msg \<Rightarrow> Inl msg
              | Inr l \<Rightarrow> map_sum id (map (coerce_root lib)) (solve_eq lib l (zero lib) x))))"

definition solve_equation ::
  "('v, 's, 'f, 'c) sympy \<Rightarrow> string \<Rightarrow> string \<Rightarrow> error + ('v, 'f, 'c) py_value list" where
  "solve_equation lib equation variable =
     (case solve_equation_body lib equation variable of
        Inl msg \<Rightarrow> Inl (MathError (''Error solving equation: '' @ msg))
      | Inr results \<Rightarrow> Inr results)"

section \<open>\<open>MemoryManager\<close> and the memory buttons of \<open>AdvancedCalculator\<close>\<close>

text \<open>
  \<open>'n\<close> is the type of the numbers held in memory (Python doubles; only \<open>0\<close>, \<open>+\<close>
  and \<open>-\<close> are used). The record holds the fields of \<open>MemoryManager\<close>, the two text
  fields the buttons read, the file \<open>calculator_memory.json\<close> (\<open>None\<close> while it does
  not exist, otherwise the stored register and item list) and the lines written to the
  error log. The status line and the redrawing of the widgets are left out.
\<close>

record 'n MemoryItem =
  item_value :: 'n
  item_expression :: string
  item_timestamp :: string

type_synonym 'n memory_data = "'n \<times> ('n \<times> string \<times> string) list"

record 'n app =
  memory :: "'n MemoryItem list"
  memory_register :: 'n
  history :: "string list"
  result_display :: string
  display :: string
  memory_file :: "'n memory_data option"
  log :: "string list"

text \<open>
  \<open>save_memory\<close>: \<open>io\<close> is what the file system does with the write, \<open>None\<close> when it
  goes through and \<open>Some msg\<close> when \<open>open\<close> raises \<open>msg\<close>; the exception is logged and
  not raised again.
\<close>

definition save_memory :: "string option \<Rightarrow> 'n app \<Rightarrow> 'n app" where
  "save_memory io st =
     (case io of
        None \<Rightarrow>
          st\<lparr>memory_file :=
               Some (memory_register st,
                     map (\<lambda>item. (item_value item, item_expression item, item_timestamp item))
                       (memory st))\<rparr>
      | Some e \<Rightarrow> st\<lparr>log := log st @ [''Error saving memory: '' @ e]\<rparr>)"

definition add_to_memory :: "string \<Rightarrow> string option \<Rightarrow> 'n \<Rightarrow> string \<Rightarrow> 'n app \<Rightarrow> 'n app" where
  "add_to_memory now io v expression st =
     save_memory io
       (st\<lparr>memory := memory st @
              [\<lparr>item_value = v, item_expression = expression, item_timestamp = now\<rparr>]\<rparr>)"

definition clear_memory :: "string option \<Rightarrow> 'n app \<Rightarrow> 'n app" where
  "clear_memory io st = save_memory io (st\<lparr>memory := []\<rparr>)"

text \<open>
  The four buttons. \<open>parse\<close> is Python's \<open>float(result_text)\<close>, \<open>Inl\<close> when it raises;
  every handler catches the exception and only reports it on the status line.
\<close>

definition memory_store ::
  "(string \<Rightarrow> string + 'n) \<Rightarrow> string \<Rightarrow> string option \<Rightarrow> 'n app \<Rightarrow> 'n app" where
  "memory_store parse now io st =
     (if result_display st = [] then st
      else (case parse (result_display st) of
              Inl _ \<Rightarrow> st
            | Inr v \<Rightarrow> (add_to_memory now io v (display st) st)\<lparr>memory_register := v\<rparr>))"

definition memory_add :: "(string \<Rightarrow> string + 'n::plus) \<Rightarrow> 'n app \<Rightarrow> 'n app" where
  "memory_add parse st =
     (if result_display st = [] then st
      else (case parse (result_display st) of
              Inl _ \<Rightarrow> st
            | Inr v \<Rightarrow> st\<lparr>memory_register := memory_register st + v\<rparr>))"

definition memory_subtract :: "(string \<Rightarrow> string + 'n::minus) \<Rightarrow> 'n app \<Rightarrow> 'n app" where
  "memory_subtract parse st =
     (if result_display st = [] then st
      else (case parse (result_display st) of
              Inl _ \<Rightarrow> st
            | Inr v \<Rightarrow> st\<lparr>memory_register := memory_register st - v\<rparr>))"

definition memory_clear :: "string option \<Rightarrow> 'n::zero app \<Rightarrow> 'n app" where
  "memory_clear io st = clear_memory io (st\<lparr>memory_register := 0\<rparr>)"

text \<open>What the file holds is what the session holds.\<close>

definition persisted :: "'n app \<Rightarrow> bool" where
  "persisted st \<longleftrightarrow>
     memory_file st =
       Some (memory_register st,
             map (\<lambda>item. (item_value item, item_expression item, item_timestamp item))
               (memory st))"

section \<open>The history log\<close>

definition add_to_history :: "string \<Rightarrow> string \<Rightarrow> 'n app \<Rightarrow> 'n app" where
  "add_to_history expression result st =
     st\<lparr>history := history st @ [expression @ '' = '' @ result]\<rparr>"

definition clear_history :: "'n app \<Rightarrow> 'n app" where
  "clear_history st = st\<lparr>history := []\<rparr>"

text \<open>\<open>"\n\n".join(entries)\<close>\<close>

fun join_blank :: "string list \<Rightarrow> string" where
  "join_blank [] = []"
| "join_blank [e] = e"
| "join_blank (e # es) = e @ [CHR 0x0A, CHR 0x0A] @ join_blank es"

text \<open>\<open>content.split('\n\n')\<close>: the separators are found from the left and do not
  overlap; a text without separator is one piece.\<close>

fun split_blank :: "string \<Rightarrow> string list" where
  "split_blank [] = [[]]"
| "split_blank [a] = [[a]]"
| "split_blank (a # b # cs) =
     (if a = CHR 0x0A \<and> b = CHR 0x0A then [] # split_blank cs
      else (case split_blank (b # cs) of
              [] \<Rightarrow> [[a]]
            | p # ps \<Rightarrow> (a # p) # ps))"

text \<open>
  The files are opened in text mode. Reading translates \<open>\r\n\<close> and a lone \<open>\r\<close> into
  \<open>\n\<close> (universal newlines); writing leaves the text as it is where the line
  separator of the platform is \<open>\n\<close>.
\<close>

fun read_text :: "string \<Rightarrow> string" where
  "read_text [] = []"
| "read_text [a] = (if a = CHR 0x0D then [CHR 0x0A] else [a])"
| "read_text (a # b # cs) =
     (if a = CHR 0x0D \<and> b = CHR 0x0A then CHR 0x0A # read_text cs
      else if a = CHR 0x0D then CHR 0x0A # read_text (b # cs)
      else a # read_text (b # cs))"

definition write_text :: "string \<Rightarrow> string" where
  "write_text s = s"

text \<open>
  \<open>save_history\<close>: the content of the file written, \<open>None\<close> when the history is empty
  and nothing is written. \<open>load_history\<close>: the state after reading a file with the
  given content. In both a file has been chosen in the dialog.
\<close>

definition save_history :: "'n app \<Rightarrow> string option" where
  "save_history st =
     (if history st = [] then None else Some (write_text (join_blank (history st))))"

definition load_history :: "string \<Rightarrow> 'n app \<Rightarrow> 'n app" where
  "load_history file st =
     st\<lparr>history := filter (\<lambda>entry. strip entry \<noteq> []) (split_blank (read_text file))\<rparr>"

text \<open>The state of a session that has just started without a memory file.\<close>

definition fresh :: "'n::zero app" where
  "fresh = \<lparr>memory = [], memory_register = 0, history = [], result_display = [],
            display = [], memory_file = None, log = []\<rparr>"

section \<open>A table of the library's answers, for the worked examples\<close>

text \<open>
  The examples below need a concrete library. \<open>sample_sympy\<close> tabulates what \<open>sympy\<close>
  answers on the texts they use, with the library's objects written as \<open>sympy\<close> prints
  them: \<open>sympify("2+2")\<close> is the integer \<open>4\<close> and \<open>evalf\<close> makes it the float
  \<open>4.00000000000000\<close>; \<open>sympify("1/0")\<close> is \<open>zoo\<close> (complex infinity) and raises
  nothing; \<open>sqrt(-1)\<close> is \<open>I\<close>; the roots of \<open>x**2 - 4\<close> are \<open>-2\<close> and \<open>2\<close>.
  \<open>sympy.core.numbers\<close> defines \<open>Float\<close>, \<open>Integer\<close> and \<open>Rational\<close> but no class
  \<open>ComplexNumber\<close>, so reading that attribute raises.
\<close>

definition attribute_error :: string where
  "attribute_error =
     ''module '' @ [CHR 0x27] @ ''sympy.core.numbers'' @ [CHR 0x27] @
     '' has no attribute '' @ [CHR 0x27] @ ''ComplexNumber'' @ [CHR 0x27]"

definition lookup :: "('a \<times> 'b) list \<Rightarrow> string \<Rightarrow> 'a \<Rightarrow> string + 'b" where
  "lookup table msg k = (case map_of table k of Some v \<Rightarrow> Inr v | None \<Rightarrow> Inl msg)"

definition sample_sympy :: "(string, string, real, complex) sympy" where
  "sample_sympy =
     \<lparr>sympify =
        lookup [(''2+2'', ''4''), (''1/0'', ''zoo''), (''sqrt(-1)'', ''I''),
                (''x^2 - 4'', ''x**2 - 4''), (''0'', ''0''), (''piano'', ''piano''),
                (''3.141592653589793'', ''3.141592653589793'')]
          ''could not parse'',
      evalf =
        (\<lambda>v. Inr (case map_of [(''4'', ''4.00000000000000''), (''I'', ''1.0*I''),
                                  (''3.141592653589793'', ''3.14159265358979'')] v of
                      Some w \<Rightarrow> w | None \<Rightarrow> v)),
      is_Float = (\<lambda>v. v \<in> {''4.00000000000000'', ''3.14159265358979''}),
      is_Integer = (\<lambda>v. v \<in> {''4'', ''0'', ''2'', ''-2''}),
      is_Rational = (\<lambda>v. v \<in> {''4'', ''0'', ''2'', ''-2''}),
      complex_number = Inl attribute_error,
      to_float =
        lookup [(''4.00000000000000'', 4), (''3.14159265358979'', 3.141592653589793),
                (''4'', 4), (''0'', 0), (''2'', 2), (''-2'', - 2)]
          ''Cannot convert expression to float'',
      to_complex =
        lookup [(''1.0*I'', \<i>)] ''Cannot convert expression to complex'',
      symbols = Inr,
      solve_eq =
        (\<lambda>l r x. if l = ''x**2 - 4'' \<and> r = ''0'' \<and> x = ''x'' then Inr [''-2'', ''2'']
                   else Inr []),
      zero = ''0''\<rparr>"

text \<open>
  The same library on the inverse sine of zero: \<open>sympify("asin(0)")\<close> and
  \<open>sympify("asin(0 * pi/180)")\<close> are both the integer \<open>0\<close>, which \<open>evalf\<close> leaves as it is.
\<close>

definition asin_sympy :: "(string, string, real, complex) sympy" where
  "asin_sympy =
     sample_sympy\<lparr>sympify :=
       lookup [(''asin(0)'', ''0''), (''asin(0 * pi/180)'', ''0'')] ''could not parse''\<rparr>"

text \<open>The value that \<open>evaluate\<close> returns is a Python \<open>float\<close>.\<close>

definition returns_float :: "error + ('v, 'f, 'c) py_value \<Rightarrow> bool" where
  "returns_float r = (case r of Inr (PyFloat _) \<Rightarrow> True | _ \<Rightarrow> False)"

text \<open>
  A session whose memory file is up to date (register \<open>0\<close>, no items) and whose result
  field shows \<open>5\<close> for the expression \<open>2+3\<close>; \<open>digit_parse\<close> is \<open>float\<close> on the result
  texts of the example.
\<close>

definition digit_parse :: "string \<Rightarrow> string + int" where
  "digit_parse s = lookup [(''5'', 5), (''2'', 2)] ''could not convert string to float'' s"

definition five_shown :: "int app" where
  "five_shown =
     fresh\<lparr>result_display := ''5'', display := ''2+3'', memory_file := Some (0, [])\<rparr>"

section \<open>Evaluation of the scanners on concrete texts\<close>

lemmas scan_defs =
  subst_constants_def constants_def match_word_def boundary_def word_at_def first_char_def
  is_word_def word_chars_def handle_special_functions_def trig_funcs_def match_call_def
  preprocess_def

lemma preprocess_2plus2: "preprocess m ''2+2'' = ''2+2''"
  by (simp add: scan_defs)

lemma preprocess_div0: "preprocess m ''1/0'' = ''1/0''"
  by (simp add: scan_defs)

section \<open>Results and errors of \<open>evaluate\<close>\<close>

lemma evaluate_Inl:
  "evaluate_body lib m e = Inl msg \<Longrightarrow>
   evaluate lib m e = Inl (MathError (''Error evaluating expression: '' @ msg))"
  by (simp add: evaluate_def)

lemma evaluate_Inr: "evaluate_body lib m e = Inr r \<Longrightarrow> evaluate lib m e = Inr r"
  by (simp add: evaluate_def)

lemma evaluate_body_unfold:
  "sympify lib (preprocess m e) = Inr p \<Longrightarrow> evalf lib p = Inr v \<Longrightarrow>
   evaluate_body lib m e = classify lib v"
  by (simp add: evaluate_body_def)

text \<open>
  When every name of the \<open>isinstance\<close> chain resolves, a value that is no real number
  is returned as a complex number or as it is.
\<close>

lemma evaluate_resolved_class:
  assumes "sympify lib (preprocess m e) = Inr p" and "evalf lib p = Inr v"
    and "\<not> is_Float lib v" and "\<not> is_Integer lib v" and "\<not> is_Rational lib v"
    and "complex_number lib = Inr is_ComplexNumber"
  shows "evaluate lib m e =
           (if is_ComplexNumber v
            then (case to_complex lib v of
                    Inl msg \<Rightarrow> Inl (MathError (''Error evaluating expression: '' @ msg))
                  | Inr z \<Rightarrow> Inr (PyComplex z))
            else Inr (PySym v))"
  using assms
  by (simp add: evaluate_def evaluate_body_def classify_def split: sum.splits)

lemma evaluate_real:
  assumes "sympify lib (preprocess m e) = Inr p" and "evalf lib p = Inr v"
    and "is_Float lib v \<or> is_Integer lib v \<or> is_Rational lib v"
    and "to_float lib v = Inr d"
  shows "evaluate lib m e = Inr (PyFloat d)"
  using assms by (auto simp: evaluate_def evaluate_body_def classify_def)

text \<open>
  C1 (the returned value is classified: a real number is coerced to a double, a complex
  number is returned as a complex pair, anything else is returned as it is and no error
  is raised). The chain tests \<open>Float\<close>, \<open>Integer\<close> and \<open>Rational\<close> and then names
  \<open>sp.core.numbers.ComplexNumber\<close>. When the library has no attribute of that name,
  reading it raises before the test is made: every value that is not a real number,
  complex or symbolic, leaves \<open>evaluate\<close> as a \<open>MathError\<close> that carries the message of
  the failed lookup, and neither the complex branch nor the fallback is reached.
\<close>

theorem evaluate_unresolved_class:
  assumes "sympify lib (preprocess m e) = Inr p" and "evalf lib p = Inr v"
    and "\<not> is_Float lib v" and "\<not> is_Integer lib v" and "\<not> is_Rational lib v"
    and "complex_number lib = Inl msg"
  shows "evaluate lib m e = Inl (MathError (''Error evaluating expression: '' @ msg))"
proof -
  have "classify lib v = Inl msg"
    using assms(3-6) by (simp add: classify_def)
  then have "evaluate_body lib m e = Inl msg"
    using assms(1,2) by (simp add: evaluate_body_unfold)
  then show ?thesis
    by (rule evaluate_Inl)
qed

theorem evaluate_unresolved_class_witness:
  "evaluate sample_sympy ''radians'' ''sqrt(-1)'' =
     Inl (MathError (''Error evaluating expression: '' @ attribute_error))"
proof -
  have p: "preprocess ''radians'' ''sqrt(-1)'' = ''sqrt(-1)''"
    by (simp add: scan_defs)
  have "sympify sample_sympy (preprocess ''radians'' ''sqrt(-1)'') = Inr ''I''"
    by (simp add: p sample_sympy_def lookup_def)
  moreover have "evalf sample_sympy ''I'' = Inr ''1.0*I''"
    by (simp add: sample_sympy_def)
  moreover have "\<not> is_Float sample_sympy ''1.0*I''" "\<not> is_Integer sample_sympy ''1.0*I''"
    "\<not> is_Rational sample_sympy ''1.0*I''"
    by (simp_all add: sample_sympy_def)
  moreover have "complex_number sample_sympy = Inl attribute_error"
    by (simp add: sample_sympy_def)
  ultimately show ?thesis
    by (rule evaluate_unresolved_class)
qed

text \<open>
  C2 (every failure inside \<open>evaluate\<close> is caught and surfaces as a \<open>MathError\<close> that
  carries the original message; \<open>evaluate("1/0")\<close> raises \<open>MathError\<close>). A failure of
  \<open>sympify\<close>, of \<open>evalf\<close> or of the classification becomes a \<open>MathError\<close> with the
  message appended to the fixed prefix, and no other error leaves \<open>evaluate\<close>. The text
  \<open>1/0\<close> reaches the library unchanged in either angle mode; \<open>evaluate\<close> raises on it
  when the library refuses it, and also when the library answers with a value that is
  no real number while the class of the fourth test does not resolve.
\<close>

theorem evaluate_failure_MathError:
  "(sympify lib (preprocess m e) = Inl msg \<longrightarrow>
      evaluate lib m e = Inl (MathError (''Error evaluating expression: '' @ msg))) \<and>
   (sympify lib (preprocess m e) = Inr p \<and> evalf lib p = Inl msg \<longrightarrow>
      evaluate lib m e = Inl (MathError (''Error evaluating expression: '' @ msg))) \<and>
   (sympify lib (preprocess m e) = Inr p \<and> evalf lib p = Inr v \<and> classify lib v = Inl msg \<longrightarrow>
      evaluate lib m e = Inl (MathError (''Error evaluating expression: '' @ msg))) \<and>
   (\<forall>err. evaluate lib m e = Inl err \<longrightarrow>
      (\<exists>msg'. err = MathError (''Error evaluating expression: '' @ msg'))) \<and>
   (sympify lib ''1/0'' = Inl msg \<longrightarrow>
      evaluate lib m ''1/0'' = Inl (MathError (''Error evaluating expression: '' @ msg))) \<and>
   (sympify lib ''1/0'' = Inr p \<and> evalf lib p = Inr v \<and> \<not> is_Float lib v \<and>
    \<not> is_Integer lib v \<and> \<not> is_Rational lib v \<and> complex_number lib = Inl msg \<longrightarrow>
      evaluate lib m ''1/0'' = Inl (MathError (''Error evaluating expression: '' @ msg)))"
proof (intro conjI impI allI)
  assume "sympify lib (preprocess m e) = Inl msg"
  then show "evaluate lib m e = Inl (MathError (''Error evaluating expression: '' @ msg))"
    by (simp add: evaluate_def evaluate_body_def)
next
  assume "sympify lib (preprocess m e) = Inr p \<and> evalf lib p = Inl msg"
  then show "evaluate lib m e = Inl (MathError (''Error evaluating expression: '' @ msg))"
    by (simp add: evaluate_def evaluate_body_def)
next
  assume "sympify lib (preprocess m e) = Inr p \<and> evalf lib p = Inr v \<and> classify lib v = Inl msg"
  then show "evaluate lib m e = Inl (MathError (''Error evaluating expression: '' @ msg))"
    by (simp add: evaluate_def evaluate_body_def)
next
  fix err
  assume "evaluate lib m e = Inl err"
  then show "\<exists>msg'. err = MathError (''Error evaluating expression: '' @ msg')"
    by (auto simp: evaluate_def split: sum.splits)
next
  assume "sympify lib ''1/0'' = Inl msg"
  then show "evaluate lib m ''1/0'' = Inl (MathError (''Error evaluating expression: '' @ msg))"
    by (simp add: evaluate_def evaluate_body_def preprocess_div0)
next
  assume "sympify lib ''1/0'' = Inr p \<and> evalf lib p = Inr v \<and> \<not> is_Float lib v \<and>
    \<not> is_Integer lib v \<and> \<not> is_Rational lib v \<and> complex_number lib = Inl msg"
  then show "evaluate lib m ''1/0'' = Inl (MathError (''Error evaluating expression: '' @ msg))"
    by (simp add: evaluate_def evaluate_body_def preprocess_div0 classify_def)
qed

theorem evaluate_failure_MathError_witness:
  "sympify sample_sympy ''1/0'' = Inr ''zoo'' \<and> evalf sample_sympy ''zoo'' = Inr ''zoo'' \<and>
   \<not> is_Float sample_sympy ''zoo'' \<and> \<not> is_Integer sample_sympy ''zoo'' \<and>
   \<not> is_Rational sample_sympy ''zoo'' \<and> complex_number sample_sympy = Inl attribute_error \<and>
   evaluate sample_sympy ''radians'' ''1/0'' =
     Inl (MathError (''Error evaluating expression: '' @ attribute_error)) \<and>
   sympify sample_sympy (preprocess ''radians'' ''2+'') = Inl ''could not parse'' \<and>
   evaluate sample_sympy ''radians'' ''2+'' =
     Inl (MathError ''Error evaluating expression: could not parse'')"
proof -
  have h: "sympify sample_sympy ''1/0'' = Inr ''zoo'' \<and> evalf sample_sympy ''zoo'' = Inr ''zoo'' \<and>
   \<not> is_Float sample_sympy ''zoo'' \<and> \<not> is_Integer sample_sympy ''zoo'' \<and>
   \<not> is_Rational sample_sympy ''zoo'' \<and> complex_number sample_sympy = Inl attribute_error"
    by (simp add: sample_sympy_def lookup_def)
  have g: "sympify sample_sympy (preprocess ''radians'' ''2+'') = Inl ''could not parse''"
    by (simp add: scan_defs sample_sympy_def lookup_def)
  from evaluate_failure_MathError
    [of sample_sympy "''radians''" "''2+''" "''could not parse''" "''zoo''" "''zoo''"]
  have a: "evaluate sample_sympy ''radians'' ''2+'' =
     Inl (MathError ''Error evaluating expression: could not parse'')"
    using g by simp
  from evaluate_failure_MathError
    [of sample_sympy "''radians''" "''2+''" attribute_error "''zoo''" "''zoo''"]
  have b: "evaluate sample_sympy ''radians'' ''1/0'' =
     Inl (MathError (''Error evaluating expression: '' @ attribute_error))"
    using h by blast
  show ?thesis
    using h g a b by blast
qed


text \<open>
  C8, as stated (\<open>evaluate("2+2")\<close> returns \<open>4\<close> as an integer, not the floating
  representation \<open>4.0\<close>), fails: with the library's answers for \<open>2+2\<close> the value
  returned is the double \<open>4.0\<close>.
\<close>

theorem evaluate_2plus2_counterexample:
  "returns_float (evaluate sample_sympy ''radians'' ''2+2'') \<and>
   evaluate sample_sympy ''radians'' ''2+2'' = Inr (PyFloat 4)"
  by (simp add: returns_float_def evaluate_def evaluate_body_def classify_def preprocess_2plus2
      sample_sympy_def lookup_def)

text \<open>
  C8, amended: \<open>evaluate("2+2")\<close> returns the evaluator's value coerced by \<open>float\<close>,
  a double, in either angle mode and whether the evaluator's value is a \<open>Float\<close>, an
  \<open>Integer\<close> or a \<open>Rational\<close>.
\<close>

theorem evaluate_2plus2_double:
  assumes "sympify lib ''2+2'' = Inr p" and "evalf lib p = Inr v"
    and "is_Float lib v \<or> is_Integer lib v \<or> is_Rational lib v"
    and "to_float lib v = Inr d"
  shows "evaluate lib m ''2+2'' = Inr (PyFloat d) \<and> returns_float (evaluate lib m ''2+2'')"
proof -
  have "sympify lib (preprocess m ''2+2'') = Inr p"
    using assms(1) by (simp add: preprocess_2plus2)
  then have "evaluate lib m ''2+2'' = Inr (PyFloat d)"
    using assms(2-4) by (rule evaluate_real)
  then show ?thesis
    by (simp add: returns_float_def)
qed

theorem evaluate_2plus2_double_witness:
  "sympify sample_sympy ''2+2'' = Inr ''4'' \<and>
   evalf sample_sympy ''4'' = Inr ''4.00000000000000'' \<and>
   is_Float sample_sympy ''4.00000000000000'' \<and>
   to_float sample_sympy ''4.00000000000000'' = Inr 4 \<and>
   evaluate sample_sympy ''degrees'' ''2+2'' = Inr (PyFloat 4)"
proof -
  have a: "sympify sample_sympy ''2+2'' = Inr ''4''"
    and b: "evalf sample_sympy ''4'' = Inr ''4.00000000000000''"
    and c: "is_Float sample_sympy ''4.00000000000000''"
    and d: "to_float sample_sympy ''4.00000000000000'' = Inr 4"
    by (simp_all add: sample_sympy_def lookup_def)
  from c have c': "is_Float sample_sympy ''4.00000000000000'' \<or>
      is_Integer sample_sympy ''4.00000000000000'' \<or>
      is_Rational sample_sympy ''4.00000000000000''"
    by simp
  show ?thesis
    using a b c d evaluate_2plus2_double [OF a b c' d, of "''degrees''"] by simp
qed


section \<open>\<open>solve_equation\<close>\<close>

lemma split_eq_first:
  "CHR ''='' \<notin> set left \<Longrightarrow> split_eq (left @ CHR ''='' # right) = (left, right)"
  by (induction left) (auto simp: split_eq_def)

lemma split_example: "split_eq ''x^2 - 4 = 0'' = (''x^2 - 4 '', '' 0'')"
  by (simp add: split_eq_def)

lemma strip_examples: "strip ''x^2 - 4 '' = ''x^2 - 4''" "strip '' 0'' = ''0''"
  by (simp_all add: strip_def is_space_def)

text \<open>
  C7 (an equation with \<open>=\<close> is split at the first \<open>=\<close> into two sides, which are
  stripped and parsed; without \<open>=\<close> the expression is equated to zero; every root is
  coerced by \<open>float\<close> where that succeeds and kept as it is otherwise; for
  \<open>x^2 - 4 = 0\<close> the solver is asked for the roots of \<open>x^2 - 4\<close> against \<open>0\<close> in
  \<open>x\<close>, and its roots come back as doubles, in the solver's order).
\<close>

theorem solve_equation_shape:
  "(CHR ''='' \<notin> set left \<and> symbols lib variable = Inr x \<and>
    sympify lib (strip left) = Inr l \<and> sympify lib (strip right) = Inr r \<and>
    solve_eq lib l r x = Inr sols \<longrightarrow>
      solve_equation lib (left @ CHR ''='' # right) variable = Inr (map (coerce_root lib) sols)) \<and>
   (CHR ''='' \<notin> set equation \<and> symbols lib variable = Inr x \<and>
    sympify lib equation = Inr l \<and> solve_eq lib l (zero lib) x = Inr sols \<longrightarrow>
      solve_equation lib equation variable = Inr (map (coerce_root lib) sols)) \<and>
   (to_float lib sol = Inr d \<longrightarrow> coerce_root lib sol = PyFloat d) \<and>
   (to_float lib sol = Inl msg \<longrightarrow> coerce_root lib sol = PySym sol) \<and>
   (symbols lib ''x'' = Inr x \<and> sympify lib ''x^2 - 4'' = Inr l \<and> sympify lib ''0'' = Inr r \<and>
    solve_eq lib l r x = Inr sols \<and> map (to_float lib) sols = map Inr ds \<longrightarrow>
      solve_equation lib ''x^2 - 4 = 0'' ''x'' = Inr (map PyFloat ds))"
proof (intro conjI impI)
  assume a: "CHR ''='' \<notin> set left \<and> symbols lib variable = Inr x \<and>
    sympify lib (strip left) = Inr l \<and> sympify lib (strip right) = Inr r \<and>
    solve_eq lib l r x = Inr sols"
  then have "split_eq (left @ CHR ''='' # right) = (left, right)"
    by (simp add: split_eq_first)
  with a show "solve_equation lib (left @ CHR ''='' # right) variable =
      Inr (map (coerce_root lib) sols)"
    by (simp add: solve_equation_def solve_equation_body_def)
next
  assume "CHR ''='' \<notin> set equation \<and> symbols lib variable = Inr x \<and>
    sympify lib equation = Inr l \<and> solve_eq lib l (zero lib) x = Inr sols"
  then show "solve_equation lib equation variable = Inr (map (coerce_root lib) sols)"
    by (simp add: solve_equation_def solve_equation_body_def)
next
  assume "to_float lib sol = Inr d"
  then show "coerce_root lib sol = PyFloat d"
    by (simp add: coerce_root_def)
next
  assume "to_float lib sol = Inl msg"
  then show "coerce_root lib sol = PySym sol"
    by (simp add: coerce_root_def)
next
  assume a: "symbols lib ''x'' = Inr x \<and> sympify lib ''x^2 - 4'' = Inr l \<and>
    sympify lib ''0'' = Inr r \<and> solve_eq lib l r x = Inr sols \<and>
    map (to_float lib) sols = map Inr ds"
  then have m: "map (to_float lib) sols = map Inr ds"
    by simp
  have "map (coerce_root lib) sols = map PyFloat ds"
    using m
  proof (induction sols arbitrary: ds)
    case Nil
    then show ?case by simp
  next
    case (Cons s sols)
    then show ?case
      by (cases ds) (auto simp: coerce_root_def)
  qed
  with a show "solve_equation lib ''x^2 - 4 = 0'' ''x'' = Inr (map PyFloat ds)"
    by (simp add: solve_equation_def solve_equation_body_def split_example strip_examples)
qed

theorem solve_equation_shape_witness:
  "solve_equation sample_sympy ''x^2 - 4 = 0'' ''x'' = Inr [PyFloat (- 2), PyFloat 2] \<and>
   set [PyFloat (- 2), PyFloat 2 :: (string, real, complex) py_value] = {PyFloat 2, PyFloat (- 2)} \<and>
   solve_equation sample_sympy ''x^2 - 4'' ''x'' = Inr [PyFloat (- 2), PyFloat 2] \<and>
   coerce_root sample_sympy ''2'' = PyFloat 2 \<and>
   coerce_root sample_sympy ''zoo'' = PySym ''zoo''"
proof -
  have h: "symbols sample_sympy ''x'' = Inr ''x'' \<and>
      sympify sample_sympy ''x^2 - 4'' = Inr ''x**2 - 4'' \<and>
      sympify sample_sympy ''0'' = Inr ''0'' \<and>
      solve_eq sample_sympy ''x**2 - 4'' ''0'' ''x'' = Inr [''-2'', ''2''] \<and>
      map (to_float sample_sympy) [''-2'', ''2''] = map Inr [- 2, 2]"
    by (simp add: sample_sympy_def lookup_def)
  have g: "CHR ''='' \<notin> set ''x^2 - 4'' \<and> symbols sample_sympy ''x'' = Inr ''x'' \<and>
      sympify sample_sympy ''x^2 - 4'' = Inr ''x**2 - 4'' \<and>
      solve_eq sample_sympy ''x**2 - 4'' (zero sample_sympy) ''x'' = Inr [''-2'', ''2'']"
    by (simp add: sample_sympy_def lookup_def)
  have f: "to_float sample_sympy ''2'' = Inr 2"
    "to_float sample_sympy ''zoo'' = Inl ''Cannot convert expression to float''"
    by (simp_all add: sample_sympy_def lookup_def)
  show ?thesis
    using h g f
      solve_equation_shape [where lib = sample_sympy and left = "''x^2 - 4 ''" and right = "'' 0''"
        and variable = "''x''" and x = "''x''" and l = "''x**2 - 4''" and r = "''0''"
        and sols = "[''-2'', ''2'']" and equation = "''x^2 - 4''" and sol = "''2''" and d = 2
        and ds = "[- 2, 2]"]
      solve_equation_shape [where lib = sample_sympy and sol = "''zoo''"
        and msg = "''Cannot convert expression to float''"]
    by (auto simp: strip_examples)
qed

section \<open>Persistence of the memory\<close>

text \<open>
  C3 (every mutating memory operation persists register and items before it returns; a
  failed write is logged, not raised). \<open>memory_add\<close> and \<open>memory_subtract\<close> change the
  register and never call \<open>save_memory\<close>: the file keeps the old register. \<open>memory_store\<close>
  saves inside \<open>add_to_memory\<close> and assigns the register afterwards: the file holds the
  new item beside the old register. Only \<open>memory_clear\<close> leaves the file equal to the
  session.
\<close>

theorem memory_not_persisted:
  "persisted five_shown \<and>
   memory_register (memory_add digit_parse five_shown) = 5 \<and>
   memory_file (memory_add digit_parse five_shown) = Some (0, []) \<and>
   \<not> persisted (memory_add digit_parse five_shown) \<and>
   memory_register (memory_subtract digit_parse five_shown) = - 5 \<and>
   memory_file (memory_subtract digit_parse five_shown) = Some (0, []) \<and>
   \<not> persisted (memory_subtract digit_parse five_shown) \<and>
   memory_register (memory_store digit_parse ''2026-01-01 00:00:00'' None five_shown) = 5 \<and>
   memory_file (memory_store digit_parse ''2026-01-01 00:00:00'' None five_shown) =
     Some (0, [(5, ''2+3'', ''2026-01-01 00:00:00'')]) \<and>
   \<not> persisted (memory_store digit_parse ''2026-01-01 00:00:00'' None five_shown) \<and>
   persisted (memory_clear None five_shown)"
  by (simp add: persisted_def five_shown_def fresh_def memory_add_def memory_subtract_def
      memory_store_def memory_clear_def clear_memory_def add_to_memory_def save_memory_def
      digit_parse_def lookup_def)

lemma clear_persists: "persisted (memory_clear None st)"
  by (simp add: persisted_def memory_clear_def clear_memory_def save_memory_def)

lemma save_failure_logged:
  "save_memory (Some e) st = st\<lparr>log := log st @ [''Error saving memory: '' @ e]\<rparr>"
  by (simp add: save_memory_def)


section \<open>Export and import of the history\<close>

lemma read_text_id: "CHR 0x0D \<notin> set s \<Longrightarrow> read_text s = s"
  by (induction s rule: read_text.induct) auto

lemma split_blank_append:
  "\<not> sublist [CHR 0x0A, CHR 0x0A] e \<Longrightarrow> e = [] \<or> last e \<noteq> CHR 0x0A \<Longrightarrow>
   split_blank (e @ CHR 0x0A # CHR 0x0A # rest) = e # split_blank rest"
proof (induction e rule: split_blank.induct)
  case 1
  then show ?case by simp
next
  case (2 a)
  then show ?case by simp
next
  case (3 a b cs)
  from "3.prems"(1) have ab: "\<not> (a = CHR 0x0A \<and> b = CHR 0x0A)"
    and tl: "\<not> sublist [CHR 0x0A, CHR 0x0A] (b # cs)"
    by (auto simp: sublist_Cons_right)
  from "3.prems"(2) have "b # cs = [] \<or> last (b # cs) \<noteq> CHR 0x0A"
    by simp
  with "3.IH" ab tl have "split_blank ((b # cs) @ CHR 0x0A # CHR 0x0A # rest) =
      (b # cs) # split_blank rest"
    by blast
  with ab show ?case
    by simp
qed

lemma split_blank_single:
  "\<not> sublist [CHR 0x0A, CHR 0x0A] e \<Longrightarrow> split_blank e = [e]"
proof (induction e rule: split_blank.induct)
  case (3 a b cs)
  from "3.prems" have ab: "\<not> (a = CHR 0x0A \<and> b = CHR 0x0A)"
    and tl: "\<not> sublist [CHR 0x0A, CHR 0x0A] (b # cs)"
    by (auto simp: sublist_Cons_right)
  with "3.IH" have "split_blank (b # cs) = [b # cs]"
    by blast
  with ab show ?case
    by simp
qed simp_all

lemma strip_nonempty: "strip e \<noteq> [] \<longleftrightarrow> (\<exists>c\<in>set e. \<not> is_space c)"
proof -
  have "dropWhile is_space (rev (dropWhile is_space e)) \<noteq> [] \<longleftrightarrow>
      (\<exists>c\<in>set (dropWhile is_space e). \<not> is_space c)"
    by (simp add: dropWhile_eq_Nil_conv)
  also have "\<dots> \<longleftrightarrow> (\<exists>c\<in>set e. \<not> is_space c)"
  proof
    assume "\<exists>c\<in>set (dropWhile is_space e). \<not> is_space c"
    then show "\<exists>c\<in>set e. \<not> is_space c"
      by (meson set_dropWhileD)
  next
    assume "\<exists>c\<in>set e. \<not> is_space c"
    then have ne: "dropWhile is_space e \<noteq> []"
      by (simp add: dropWhile_eq_Nil_conv)
    then have "\<not> is_space (hd (dropWhile is_space e))"
      by (rule hd_dropWhile)
    with ne show "\<exists>c\<in>set (dropWhile is_space e). \<not> is_space c"
      by (meson hd_in_set)
  qed
  finally show ?thesis
    by (simp add: strip_def)
qed

lemma entry_not_blank: "strip (x @ '' = '' @ r) \<noteq> []"
proof -
  have "CHR ''='' \<in> set (x @ '' = '' @ r)" by simp
  moreover have "\<not> is_space CHR ''=''" by (simp add: is_space_def)
  ultimately show ?thesis
    unfolding strip_nonempty by blast
qed

text \<open>
  C9, amended: two entries recorded by \<open>add_to_history\<close>, saved and loaded into a
  fresh log come back unchanged and in order, provided neither entry contains the
  blank-line separator, the first entry does not end in a newline, and neither contains
  a carriage return; and whatever file is loaded, no entry of the loaded history is
  blank.
\<close>

theorem history_round_trip:
  assumes "e1 = x1 @ '' = '' @ r1" and "e2 = x2 @ '' = '' @ r2"
    and "\<not> sublist [CHR 0x0A, CHR 0x0A] e1" and "\<not> sublist [CHR 0x0A, CHR 0x0A] e2"
    and "last e1 \<noteq> CHR 0x0A"
    and "CHR 0x0D \<notin> set e1" and "CHR 0x0D \<notin> set e2"
  shows "history (add_to_history x2 r2 (add_to_history x1 r1 (fresh :: 'n::zero app))) = [e1, e2] \<and>
         save_history (add_to_history x2 r2 (add_to_history x1 r1 (fresh :: 'n app))) =
           Some (e1 @ [CHR 0x0A, CHR 0x0A] @ e2) \<and>
         history (load_history (e1 @ [CHR 0x0A, CHR 0x0A] @ e2) (fresh :: 'n app)) = [e1, e2] \<and>
         (\<forall>entry \<in> set (history (load_history file st)). strip entry \<noteq> [])"
proof -
  let ?st = "add_to_history x2 r2 (add_to_history x1 r1 (fresh :: 'n app))"
  let ?blob = "e1 @ [CHR 0x0A, CHR 0x0A] @ e2"
  have h: "history ?st = [e1, e2]"
    by (simp add: add_to_history_def fresh_def assms(1,2))
  then have s: "save_history ?st = Some ?blob"
    by (simp add: save_history_def write_text_def)
  have "CHR 0x0D \<notin> set ?blob"
    using assms(6,7) by simp
  then have "read_text ?blob = ?blob"
    by (rule read_text_id)
  moreover have "split_blank ?blob = [e1, e2]"
    using split_blank_append [OF assms(3), of e2] assms(5) split_blank_single [OF assms(4)]
    by simp
  moreover have "strip e1 \<noteq> []" "strip e2 \<noteq> []"
    unfolding assms(1,2) by (rule entry_not_blank)+
  ultimately have l: "history (load_history ?blob (fresh :: 'n app)) = [e1, e2]"
    by (simp add: load_history_def)
  have "\<forall>entry \<in> set (history (load_history file st)). strip entry \<noteq> []"
    by (simp add: load_history_def)
  with h s l show ?thesis
    by blast
qed


theorem history_round_trip_witness:
  "history (load_history (''2+2 = 4'' @ [CHR 0x0A, CHR 0x0A] @ ''10/4 = 2.5'') (fresh :: int app)) =
     [''2+2 = 4'', ''10/4 = 2.5''] \<and>
   save_history (add_to_history ''10/4'' ''2.5'' (add_to_history ''2+2'' ''4'' (fresh :: int app))) =
     Some (''2+2 = 4'' @ [CHR 0x0A, CHR 0x0A] @ ''10/4 = 2.5'') \<and>
   history (load_history ('' '' @ [CHR 0x0A, CHR 0x0A] @ ''a'') (fresh :: int app)) = [''a'']"
proof -
  have a: "\<not> sublist [CHR 0x0A, CHR 0x0A] ''2+2 = 4''" "\<not> sublist [CHR 0x0A, CHR 0x0A] ''10/4 = 2.5''"
    by (simp_all add: sublist_Cons_right)
  have b: "last ''2+2 = 4'' \<noteq> CHR 0x0A" "CHR 0x0D \<notin> set ''2+2 = 4''" "CHR 0x0D \<notin> set ''10/4 = 2.5''"
    by simp_all
  have c: "''2+2 = 4'' = ''2+2'' @ '' = '' @ ''4''" "''10/4 = 2.5'' = ''10/4'' @ '' = '' @ ''2.5''"
    by simp_all
  have d: "history (load_history ('' '' @ [CHR 0x0A, CHR 0x0A] @ ''a'') (fresh :: int app)) = [''a'']"
    by (simp add: load_history_def strip_def is_space_def)
  from history_round_trip [OF c a b, where 'n = int] d show ?thesis
    by blast
qed

text \<open>
  C9, as stated (the round trip holds whenever neither entry contains the separator),
  fails. The entries \<open>1 = 2\n\<close> and \<open>3 = 4\<close> contain no separator; joined they read
  \<open>1 = 2\n\n\n3 = 4\<close>, which splits at the first two newlines into \<open>1 = 2\<close> and
  \<open>\n3 = 4\<close>. An entry with a carriage return comes back with a newline in its place.
\<close>

theorem history_round_trip_counterexample:
  "\<not> sublist [CHR 0x0A, CHR 0x0A] (''1 = 2'' @ [CHR 0x0A]) \<and>
   \<not> sublist [CHR 0x0A, CHR 0x0A] ''3 = 4'' \<and>
   history (add_to_history ''3'' ''4'' (add_to_history ''1'' (''2'' @ [CHR 0x0A]) (fresh :: int app))) =
     [''1 = 2'' @ [CHR 0x0A], ''3 = 4''] \<and>
   save_history (add_to_history ''3'' ''4'' (add_to_history ''1'' (''2'' @ [CHR 0x0A]) (fresh :: int app))) =
     Some (''1 = 2'' @ [CHR 0x0A, CHR 0x0A, CHR 0x0A] @ ''3 = 4'') \<and>
   history (load_history (''1 = 2'' @ [CHR 0x0A, CHR 0x0A, CHR 0x0A] @ ''3 = 4'') (fresh :: int app)) =
     [''1 = 2'', CHR 0x0A # ''3 = 4''] \<and>
   \<not> sublist [CHR 0x0A, CHR 0x0A] (''1'' @ [CHR 0x0D] @ '' = 2'') \<and>
   save_history (add_to_history ''3'' ''4'' (add_to_history (''1'' @ [CHR 0x0D]) ''2'' (fresh :: int app))) =
     Some (''1'' @ [CHR 0x0D] @ '' = 2'' @ [CHR 0x0A, CHR 0x0A] @ ''3 = 4'') \<and>
   history (load_history (''1'' @ [CHR 0x0D] @ '' = 2'' @ [CHR 0x0A, CHR 0x0A] @ ''3 = 4'')
      (fresh :: int app)) = [''1'' @ [CHR 0x0A] @ '' = 2'', ''3 = 4'']"
  by (simp add: sublist_Cons_right add_to_history_def save_history_def write_text_def
      load_history_def fresh_def strip_def is_space_def)


section \<open>Constant substitution is bounded by words\<close>

lemma sub_word_inside:
  "\<forall>c\<in>set s. is_word c \<Longrightarrow> is_word p \<Longrightarrow> sub_word name val (Some p) s = s"
proof (induction s arbitrary: p)
  case Nil
  then show ?case by simp
next
  case (Cons c cs)
  then have "\<not> match_word name (Some p) (c # cs)"
    by (simp add: match_word_def boundary_def word_at_def first_char_def)
  with Cons show ?case
    by simp
qed

lemma sub_word_identifier:
  assumes w: "\<forall>c\<in>set w. is_word c" and n: "name \<noteq> []" "is_word (last name)"
    and neq: "w \<noteq> name"
  shows "sub_word name val None w = w"
proof (cases w)
  case Nil
  then show ?thesis by simp
next
  case (Cons c cs)
  have "\<not> match_word name None w"
  proof
    assume m: "match_word name None w"
    then have p: "prefix name w"
      and b: "boundary (Some (last name)) (first_char (drop (length name) w))"
      by (simp_all add: match_word_def)
    from b n(2) have "\<not> word_at (first_char (drop (length name) w))"
      by (simp add: boundary_def word_at_def)
    moreover have "\<forall>c\<in>set (drop (length name) w). is_word c"
      using w by (meson in_set_dropD)
    ultimately have "drop (length name) w = []"
      by (cases "drop (length name) w") (simp_all add: first_char_def word_at_def)
    with p have "w = name"
      by (metis append_Nil2 append_eq_conv_conj prefix_def)
    with neq show False by simp
  qed
  moreover have "sub_word name val (Some c) cs = cs"
    using w Cons by (simp add: sub_word_inside)
  ultimately show ?thesis
    using Cons by simp
qed

lemma subst_constants_identifier:
  assumes "\<forall>c\<in>set w. is_word c" and "w \<notin> fst ` set constants"
  shows "subst_constants w = w"
proof -
  have "sub_word name val None w = w" if "(name, val) \<in> set constants" for name val
  proof -
    from that have "name \<noteq> []" "is_word (last name)"
      by (auto simp: constants_def is_word_def word_chars_def)
    moreover from that assms(2) have "w \<noteq> name"
      by force
    ultimately show ?thesis
      using assms(1) by (simp add: sub_word_identifier)
  qed
  then show ?thesis
    by (simp add: subst_constants_def constants_def)
qed

lemma sub_trig_no_paren: "CHR ''('' \<notin> set s \<Longrightarrow> sub_trig g s = s"
proof (induction s)
  case Nil
  then show ?case by simp
next
  case (Cons c cs)
  have "match_call g (c # cs) = None"
  proof (rule ccontr)
    assume "match_call g (c # cs) \<noteq> None"
    then have "prefix (g @ ''('') (c # cs)"
      by (auto simp: match_call_def split: if_splits)
    then have "CHR ''('' \<in> set (c # cs)"
      by (metis in_set_conv_decomp set_mono_prefix subsetD append.assoc append_Cons)
    with Cons.prems show False by simp
  qed
  with Cons show ?case by simp
qed

lemma handle_no_paren: "CHR ''('' \<notin> set s \<Longrightarrow> handle_special_functions m s = s"
  by (simp add: handle_special_functions_def trig_funcs_def sub_trig_no_paren)

lemma sub_word_no_first:
  "name \<noteq> [] \<Longrightarrow> hd name \<notin> set s \<Longrightarrow> sub_word name val prev s = s"
proof (induction s arbitrary: prev)
  case Nil
  then show ?case by simp
next
  case (Cons c cs)
  from Cons.prems have "\<not> prefix name (c # cs)"
    by (cases name) auto
  then have "\<not> match_word name prev (c # cs)"
    by (simp add: match_word_def)
  with Cons show ?case by simp
qed

lemma paren_not_word: "\<not> is_word CHR ''(''"
  by (simp add: is_word_def word_chars_def)

lemma preprocess_pi: "preprocess m ''pi'' = ''3.141592653589793''"
  by (simp add: scan_defs)

lemma subst_constants_no_first:
  assumes "\<forall>(name, val)\<in>set constants. hd name \<notin> set s"
  shows "subst_constants s = s"
proof -
  have "sub_word name val None s = s" if "(name, val) \<in> set constants" for name val
  proof (rule sub_word_no_first)
    from that show "name \<noteq> []"
      by (auto simp: constants_def)
    from that assms show "hd name \<notin> set s"
      by blast
  qed
  then show ?thesis
    by (simp add: subst_constants_def constants_def)
qed

lemma preprocess_pi_literal: "preprocess m ''3.141592653589793'' = ''3.141592653589793''"
proof -
  have "subst_constants ''3.141592653589793'' = ''3.141592653589793''"
    by (rule subst_constants_no_first) (simp add: constants_def)
  then show ?thesis
    by (simp add: preprocess_def handle_no_paren)
qed

text \<open>
  C6 (constants are replaced at whole words only): the text \<open>pi\<close> becomes the literal
  \<open>3.141592653589793\<close>, and evaluating \<open>pi\<close> is evaluating that literal; an identifier,
  a text of word characters only, that is not itself a name of the constant table
  reaches the evaluator exactly as written, in either angle mode, whatever constant
  names it contains.
\<close>

theorem constants_word_bounded:
  "preprocess m ''pi'' = ''3.141592653589793'' \<and>
   evaluate lib m ''pi'' = evaluate lib m ''3.141592653589793'' \<and>
   ((\<forall>c\<in>set w. is_word c) \<and> w \<notin> fst ` set constants \<longrightarrow>
      preprocess m w = w)"
proof (intro conjI impI)
  show "preprocess m ''pi'' = ''3.141592653589793''"
    by (rule preprocess_pi)
  show "evaluate lib m ''pi'' = evaluate lib m ''3.141592653589793''"
    by (simp add: evaluate_def evaluate_body_def preprocess_pi preprocess_pi_literal)
next
  assume a: "(\<forall>c\<in>set w. is_word c) \<and> w \<notin> fst ` set constants"
  then have "subst_constants w = w"
    by (simp add: subst_constants_identifier)
  moreover have "CHR ''('' \<notin> set w"
    using a paren_not_word by blast
  ultimately show "preprocess m w = w"
    by (simp add: preprocess_def handle_no_paren)
qed

theorem constants_word_bounded_witness:
  "list_all is_word ''piano'' \<and> ''piano'' \<notin> fst ` set constants \<and>
   preprocess ''degrees'' ''piano'' = ''piano'' \<and>
   list_all is_word ''pie'' \<and> ''pie'' \<notin> fst ` set constants \<and>
   preprocess ''radians'' ''pie'' = ''pie''"
proof -
  have a: "(\<forall>c\<in>set ''piano''. is_word c) \<and> ''piano'' \<notin> fst ` set constants"
    by (simp add: is_word_def word_chars_def constants_def)
  have b: "(\<forall>c\<in>set ''pie''. is_word c) \<and> ''pie'' \<notin> fst ` set constants"
    by (simp add: is_word_def word_chars_def constants_def)
  have c: "preprocess ''degrees'' ''piano'' = ''piano''"
    by (rule constants_word_bounded
        [where lib = sample_sympy, THEN conjunct2, THEN conjunct2, THEN mp, OF a])
  have d: "preprocess ''radians'' ''pie'' = ''pie''"
    by (rule constants_word_bounded
        [where lib = sample_sympy, THEN conjunct2, THEN conjunct2, THEN mp, OF b])
  have a': "list_all is_word ''piano''"
    using a [THEN conjunct1] unfolding list_all_iff .
  have b': "list_all is_word ''pie''"
    using b [THEN conjunct1] unfolding list_all_iff .
  show ?thesis
    by (intro conjI a' a [THEN conjunct2] b' b [THEN conjunct2] c d)
qed

section \<open>The angle mode matters for trig calls only\<close>

lemma sub_word_same: "name \<noteq> [] \<Longrightarrow> sub_word name name prev s = s"
proof (induction "length s" arbitrary: s prev rule: less_induct)
  case less
  show ?case
  proof (cases s)
    case Nil
    then show ?thesis by simp
  next
    case (Cons c cs)
    show ?thesis
    proof (cases "match_word name prev (c # cs)")
      case True
      then have "prefix name (c # cs)"
        by (simp add: match_word_def)
      then obtain rest where r: "c # cs = name @ rest"
        by (auto simp: prefix_def)
      with less.prems have d: "drop (length name - 1) cs = rest"
        by (cases name) auto
      from r less.prems have "length rest < length s"
        using Cons by (metis length_append length_greater_0_conv less_add_same_cancel2)
      then have "sub_word name name (Some (last name)) rest = rest"
        using less.hyps less.prems by blast
      moreover from True have "sub_word name name prev (c # cs) =
          name @ sub_word name name (Some (last name)) (drop (length name - 1) cs)"
        by simp
      ultimately have "sub_word name name prev (c # cs) = name @ rest"
        using d by simp
      then show ?thesis
        using Cons r by simp
    next
      case False
      have "sub_word name name (Some c) cs = cs"
        using less.hyps [of cs "Some c"] less.prems Cons by simp
      with False show ?thesis
        using Cons by simp
    qed
  qed
qed

lemma sub_word_prefix_back:
  "val \<noteq> [] \<Longrightarrow> hd val \<notin> set p \<Longrightarrow> prefix p (sub_word name val prev s) \<Longrightarrow> prefix p s"
proof (induction p arbitrary: s prev)
  case Nil
  then show ?case by simp
next
  case (Cons a p)
  show ?case
  proof (cases s)
    case Nil
    with Cons.prems show ?thesis by simp
  next
    case s: (Cons c cs)
    show ?thesis
    proof (cases "match_word name prev (c # cs)")
      case True
      with Cons.prems(3) s have "prefix (a # p) (val @ sub_word name val (Some (last name))
          (drop (length name - 1) cs))"
        by simp
      with Cons.prems(1) have "a = hd val"
        by (cases val) auto
      with Cons.prems(2) show ?thesis by simp
    next
      case False
      with Cons.prems(3) s have "a = c" and "prefix p (sub_word name val (Some c) cs)"
        by simp_all
      moreover from Cons.prems(2) have "hd val \<notin> set p"
        by simp
      ultimately show ?thesis
        using Cons.IH [OF Cons.prems(1)] s by simp
    qed
  qed
qed

lemma sublist_skip:
  assumes "set p \<inter> set a = {}" and "p \<noteq> []" and "sublist p (a @ b)"
  shows "sublist p b"
proof -
  from assms(3) consider "sublist p a" | "sublist p b"
    | p1 p2 where "p = p1 @ p2" "suffix p1 a" "prefix p2 b"
    by (auto simp: sublist_append)
  then show ?thesis
  proof cases
    case 1
    then have "set p \<subseteq> set a"
      by (rule set_mono_sublist)
    with assms(1,2) show ?thesis
      by (cases p) auto
  next
    case 2
    then show ?thesis .
  next
    case 3
    from 3(2) have "set p1 \<subseteq> set a"
      by (rule set_mono_suffix)
    with assms(1) 3(1) have "p1 = []"
      by (cases p1) auto
    with 3 show ?thesis
      by (simp add: prefix_imp_sublist)
  qed
qed

lemma sub_word_sublist_back:
  assumes "val \<noteq> []" and "set p \<inter> set val = {}" and "p \<noteq> []"
  shows "sublist p (sub_word name val prev s) \<Longrightarrow> sublist p s"
proof (induction "length s" arbitrary: s prev rule: less_induct)
  case less
  show ?case
  proof (cases s)
    case Nil
    with less.prems assms(3) show ?thesis by simp
  next
    case (Cons c cs)
    show ?thesis
    proof (cases "match_word name prev (c # cs)")
      case True
      let ?rest = "drop (length name - 1) cs"
      from True less.prems Cons
      have "sublist p (val @ sub_word name val (Some (last name)) ?rest)"
        by simp
      then have "sublist p (sub_word name val (Some (last name)) ?rest)"
        using assms(2,3) by (rule sublist_skip [rotated 2])
      moreover have "length ?rest < length s"
        using Cons by simp
      ultimately have "sublist p ?rest"
        using less.hyps by blast
      moreover have "suffix ?rest (c # cs)"
        by (metis suffix_drop suffix_ConsI)
      ultimately show ?thesis
        using Cons by (meson suffix_imp_sublist sublist_order.order_trans)
    next
      case False
      with less.prems Cons have "sublist p (c # sub_word name val (Some c) cs)"
        by simp
      then consider "prefix p (c # sub_word name val (Some c) cs)"
        | "sublist p (sub_word name val (Some c) cs)"
        by (auto simp: sublist_Cons_right)
      then show ?thesis
      proof cases
        case 1
        from assms(3) obtain a p' where p: "p = a # p'"
          by (cases p) auto
        with 1 have "a = c" and "prefix p' (sub_word name val (Some c) cs)"
          by simp_all
        moreover from assms(1,2) p have "hd val \<notin> set p'"
          by (cases val) auto
        ultimately have "prefix p (c # cs)"
          using sub_word_prefix_back [OF assms(1)] p by simp
        then show ?thesis
          using Cons by (simp add: prefix_imp_sublist)
      next
        case 2
        then have "sublist p cs"
          using less.hyps [of cs "Some c"] Cons by simp
        then show ?thesis
          using Cons by (simp add: sublist_Cons_right)
      qed
    qed
  qed
qed

lemma subst_constants_sublist_back:
  assumes p: "p \<noteq> []" and d: "set p \<inter> set ''0123456789.'' = {}"
    and s: "sublist p (subst_constants s)"
  shows "sublist p s"
proof -
  let ?s1 = "sub_word ''pi'' ''3.141592653589793'' None s"
  let ?s2 = "sub_word ''e'' ''2.718281828459045'' None ?s1"
  let ?s3 = "sub_word ''phi'' ''1.618033988749895'' None ?s2"
  let ?s4 = "sub_word ''tau'' ''6.283185307179586'' None ?s3"
  have step: "sublist p t" if "sublist p (sub_word name val None t)"
    and "val \<noteq> []" and "set val \<subseteq> set ''0123456789.''" for name val t
  proof -
    from d that(3) have "set p \<inter> set val = {}"
      by blast
    with that(2) show ?thesis
      using p that(1) by (rule sub_word_sublist_back)
  qed
  have "subst_constants s = sub_word ''inf'' ''inf'' None ?s4"
    by (simp add: subst_constants_def constants_def)
  also have "\<dots> = ?s4"
    by (rule sub_word_same) simp
  finally have "sublist p ?s4"
    using s by simp
  then have "sublist p ?s3"
    by (rule step) simp_all
  then have "sublist p ?s2"
    by (rule step) simp_all
  then have "sublist p ?s1"
    by (rule step) simp_all
  then show "sublist p s"
    by (rule step) simp_all
qed

lemma sub_trig_no_opener: "\<not> sublist (g @ ''('') s \<Longrightarrow> sub_trig g s = s"
proof (induction s)
  case Nil
  then show ?case by simp
next
  case (Cons c cs)
  from Cons.prems have np: "\<not> prefix (g @ ''('') (c # cs)"
    and nt: "\<not> sublist (g @ ''('') cs"
    by (simp_all add: sublist_Cons_right)
  from np have "match_call g (c # cs) = None"
    by (simp add: match_call_def)
  with nt Cons.IH show ?case
    by simp
qed

lemma handle_no_opener:
  assumes "\<forall>g\<in>set trig_funcs. \<not> sublist (g @ ''('') s"
  shows "handle_special_functions m s = s"
  using assms by (simp add: handle_special_functions_def trig_funcs_def sub_trig_no_opener)

lemma trig_name_chars:
  "g \<in> set trig_funcs \<Longrightarrow> g \<noteq> [] \<and> set g \<inter> set ''0123456789.'' = {}"
  by (auto simp: trig_funcs_def)

text \<open>
  C5 (an expression without trig-function names evaluates alike in degrees and in
  radians mode): when none of the six names occurs anywhere in the expression, the text
  handed to the evaluator, and with it the result of \<open>evaluate\<close>, is the same for any
  two angle modes. Constant identifiers in the expression do no harm: their
  replacements are numerals (and \<open>inf\<close> for \<open>inf\<close>), which cannot complete a trig name.
\<close>

theorem trig_free_mode_independent:
  assumes "\<forall>g\<in>set trig_funcs. \<not> sublist g expression"
  shows "preprocess m expression = preprocess m' expression \<and>
         evaluate lib m expression = evaluate lib m' expression"
proof -
  let ?s = "subst_constants expression"
  have "\<not> sublist (g @ ''('') ?s" if g: "g \<in> set trig_funcs" for g
  proof
    assume "sublist (g @ ''('') ?s"
    moreover have "sublist g (g @ ''('')"
      by (simp add: prefix_imp_sublist)
    ultimately have "sublist g ?s"
      by (meson sublist_order.order_trans)
    with trig_name_chars [OF g] have "sublist g expression"
      by (simp add: subst_constants_sublist_back)
    with assms g show False
      by blast
  qed
  then have "handle_special_functions n ?s = ?s" for n
    by (simp add: handle_no_opener)
  then have "preprocess m expression = preprocess m' expression"
    by (simp add: preprocess_def)
  then show ?thesis
    by (simp add: evaluate_def evaluate_body_def)
qed

theorem trig_free_mode_independent_witness:
  "list_all (\<lambda>g. \<not> sublist g ''2*(3+4)/7'') trig_funcs \<and>
   preprocess ''degrees'' ''2*(3+4)/7'' = preprocess ''radians'' ''2*(3+4)/7'' \<and>
   evaluate sample_sympy ''degrees'' ''2*(3+4)/7'' = evaluate sample_sympy ''radians'' ''2*(3+4)/7''"
proof -
  have a: "\<forall>g\<in>set trig_funcs. \<not> sublist g ''2*(3+4)/7''"
    by (simp add: trig_funcs_def sublist_Cons_right)
  have a': "list_all (\<lambda>g. \<not> sublist g ''2*(3+4)/7'') trig_funcs"
    using a unfolding list_all_iff .
  note t = trig_free_mode_independent [OF a, of "''degrees''" "''radians''" sample_sympy]
  show ?thesis
    by (intro conjI a' t [THEN conjunct1] t [THEN conjunct2])
qed

section \<open>Scanning for trig calls\<close>

lemma match_call_hit:
  assumes "x \<noteq> []" and "CHR '')'' \<notin> set x"
  shows "match_call g (g @ ''('' @ x @ '')'' @ rest) = Some (x, rest)"
proof -
  have t: "takeWhile (\<lambda>c. c \<noteq> CHR '')'') (x @ CHR '')'' # rest) = x"
    using assms(2) by (induction x) auto
  have d: "dropWhile (\<lambda>c. c \<noteq> CHR '')'') (x @ CHR '')'' # rest) = CHR '')'' # rest"
    using assms(2) by (induction x) auto
  show ?thesis
    using assms(1) t d by (simp add: match_call_def)
qed

lemma sub_trig_hit:
  assumes "x \<noteq> []" and "CHR '')'' \<notin> set x"
  shows "sub_trig g (g @ ''('' @ x @ '')'' @ rest) =
           g @ ''('' @ x @ '' * pi/180)'' @ sub_trig g rest"
proof -
  obtain c cs where e: "g @ ''('' @ x @ '')'' @ rest = c # cs"
    by (cases "g @ ''('' @ x @ '')'' @ rest") auto
  have "match_call g (c # cs) = Some (x, rest)"
    using match_call_hit [OF assms, of g rest] e by simp
  then have "sub_trig g (c # cs) = g @ ''('' @ x @ '' * pi/180)'' @ sub_trig g rest"
    by simp
  then show ?thesis
    using e by simp
qed

lemma prefix_append_take:
  assumes "prefix p (x @ b)" and "length p \<le> length x + n"
  shows "prefix p (x @ take n b)"
proof -
  from assms(1) obtain zs where "x @ b = p @ zs"
    by (auto simp: prefix_def)
  then have "take (length p) (x @ b) = take (length p) (p @ zs)"
    by (rule arg_cong)
  then have t: "take (length p) (x @ b) = p"
    by simp
  have "take (length p) (x @ take n b) = take (length p) (x @ b)"
    using assms(2) by (simp add: min_def)
  also note t
  finally have "take (length p) (x @ take n b) = p" .
  moreover have "prefix (take (length p) (x @ take n b)) (x @ take n b)"
    by (rule take_is_prefix)
  ultimately show ?thesis
    by simp
qed

lemma sub_trig_skip:
  "\<not> sublist (g @ ''('') (a @ take (length g) b) \<Longrightarrow> sub_trig g (a @ b) = a @ sub_trig g b"
proof (induction a)
  case Nil
  then show ?case by simp
next
  case (Cons c a)
  from Cons.prems have np: "\<not> prefix (g @ ''('') ((c # a) @ take (length g) b)"
    and nt: "\<not> sublist (g @ ''('') (a @ take (length g) b)"
    by (simp_all add: sublist_Cons_right)
  have "\<not> prefix (g @ ''('') ((c # a) @ b)"
  proof
    assume "prefix (g @ ''('') ((c # a) @ b)"
    then have "prefix (g @ ''('') ((c # a) @ take (length g) b)"
      by (rule prefix_append_take) simp
    with np show False by simp
  qed
  then have "match_call g (c # a @ b) = None"
    by (simp add: match_call_def)
  with Cons.IH [OF nt] show ?case
    by simp
qed

lemma sublist_split_at:
  assumes "c \<notin> set p" and "sublist p (A @ c # B)"
  shows "sublist p A \<or> sublist p B"
proof -
  from assms(2) consider "sublist p A" | "sublist p (c # B)"
    | p1 p2 where "p = p1 @ p2" "suffix p1 A" "prefix p2 (c # B)"
    by (auto simp: sublist_append)
  then show ?thesis
  proof cases
    case 1
    then show ?thesis by simp
  next
    case 2
    then consider "prefix p (c # B)" | "sublist p B"
      by (auto simp: sublist_Cons_right)
    then show ?thesis
    proof cases
      case 1
      with assms(1) have "p = []"
        by (cases p) auto
      then show ?thesis by simp
    next
      case 2
      then show ?thesis by simp
    qed
  next
    case 3
    from 3(3) assms(1) 3(1) have "p2 = []"
      by (cases p2) auto
    with 3 show ?thesis
      by (simp add: suffix_imp_sublist)
  qed
qed

lemma sublist_last_in:
  assumes "c \<notin> set f" and "sublist (g @ [c]) (pre @ f)"
  shows "sublist (g @ [c]) pre"
proof -
  from assms(2) consider "sublist (g @ [c]) pre" | "sublist (g @ [c]) f"
    | p1 p2 where "g @ [c] = p1 @ p2" "suffix p1 pre" "prefix p2 f"
    by (auto simp: sublist_append)
  then show ?thesis
  proof cases
    case 1
    then show ?thesis .
  next
    case 2
    then have "set (g @ [c]) \<subseteq> set f"
      by (rule set_mono_sublist)
    with assms(1) show ?thesis by simp
  next
    case 3
    show ?thesis
    proof (cases "p2 = []")
      case True
      with 3 show ?thesis
        by (simp add: suffix_imp_sublist)
    next
      case False
      have "last (g @ [c]) = c"
        by simp
      moreover have "last (p1 @ p2) = last p2"
        using False by simp
      ultimately have "last p2 = c"
        using arg_cong [OF 3(1), of last] by simp
      moreover have "last p2 \<in> set p2"
        using False by (rule last_in_set)
      ultimately have "c \<in> set p2"
        by simp
      moreover from 3(3) have "set p2 \<subseteq> set f"
        by (rule set_mono_prefix)
      ultimately show ?thesis
        using assms(1) by blast
    qed
  qed
qed

lemma no_opener_in_call:
  assumes "f \<noteq> g" and "length f = length g"
    and "CHR ''('' \<notin> set f" and "CHR ''('' \<notin> set x"
  shows "\<not> sublist (g @ ''('') (f @ ''('' @ x)"
proof
  assume "sublist (g @ ''('') (f @ ''('' @ x)"
  then obtain ps ss where e: "f @ ''('' @ x = ps @ (g @ ''('') @ ss"
    by (auto simp: sublist_def)
  let ?i = "length ps + length g"
  have "(ps @ (g @ ''('') @ ss) ! ?i = CHR ''(''"
    by (simp add: nth_append)
  with e have i: "(f @ ''('' @ x) ! ?i = CHR ''(''"
    by simp
  have len: "?i < length (f @ ''('' @ x)"
    using arg_cong [OF e, of length] by simp
  consider "?i < length f" | "?i = length f" | "?i > length f"
    by linarith
  then show False
  proof cases
    case 1
    with i have "f ! ?i = CHR ''(''"
      by (simp add: nth_append)
    moreover from 1 have "f ! ?i \<in> set f"
      by (rule nth_mem)
    ultimately show False
      using assms(3) by simp
  next
    case 2
    with assms(2) have "ps = []"
      by simp
    with e assms(2) have "f = g"
      by simp
    with assms(1) show False by simp
  next
    case 3
    then obtain k where k: "?i = length f + Suc k"
      using less_imp_Suc_add by auto
    with i have "x ! k = CHR ''(''"
      by (simp add: nth_append)
    moreover from len k have "k < length x"
      by simp
    then have "x ! k \<in> set x"
      by (rule nth_mem)
    ultimately show False
      using assms(4) by simp
  qed
qed

section \<open>Flat trig calls in degrees mode\<close>

lemma trig_name_shape:
  "g \<in> set trig_funcs \<Longrightarrow> length g = 3 \<and> CHR ''('' \<notin> set g \<and> CHR '')'' \<notin> set g"
  by (auto simp: trig_funcs_def)

lemma flat_call_mark: "flat_call c \<Longrightarrow> flat_call (mark g c)"
  by (auto simp: flat_call_def mark_def split: prod.splits)

lemma pre_no_opener:
  assumes g: "g \<in> set trig_funcs" and f: "f \<in> set trig_funcs" and pre: "opener_free pre"
  shows "\<not> sublist (g @ ''('') (pre @ f)"
proof
  assume s: "sublist (g @ ''('') (pre @ f)"
  from trig_name_shape [OF f] have "CHR ''('' \<notin> set f"
    by (rule conjunct2 [THEN conjunct1])
  then have "sublist (g @ [CHR ''(''])  pre"
    using s by (rule sublist_last_in)
  moreover from pre g have "\<not> sublist (g @ [CHR ''('']) pre"
    unfolding opener_free_def by (rule bspec)
  ultimately show False
    by (rule notE [rotated])
qed

lemma skip_pre:
  assumes g: "g \<in> set trig_funcs" and f: "f \<in> set trig_funcs" and pre: "opener_free pre"
  shows "sub_trig g (pre @ f @ t) = pre @ sub_trig g (f @ t)"
proof -
  from trig_name_shape [OF g] trig_name_shape [OF f] have "length f = length g"
    by simp
  then have "take (length g) (f @ t) = f"
    by simp
  moreover have "\<not> sublist (g @ ''('') (pre @ f)"
    using g f pre by (rule pre_no_opener)
  ultimately have "\<not> sublist (g @ ''('') (pre @ take (length g) (f @ t))"
    by simp
  then show ?thesis
    by (rule sub_trig_skip)
qed

lemma other_call_no_opener:
  assumes g: "g \<in> set trig_funcs" and f: "f \<in> set trig_funcs" and ne: "f \<noteq> g"
    and xo: "CHR ''('' \<notin> set x"
  shows "\<not> sublist (g @ ''('') ((f @ ''('' @ x @ '')'') @ take (length g) rest)"
proof
  assume "sublist (g @ ''('') ((f @ ''('' @ x @ '')'') @ take (length g) rest)"
  then have s: "sublist (g @ ''('') ((f @ ''('' @ x) @ CHR '')'' # take (length g) rest)"
    by simp
  have "CHR '')'' \<notin> set (g @ ''('')"
    using trig_name_shape [OF g] by simp
  from sublist_split_at [OF this s]
  show False
  proof
    assume "sublist (g @ ''('') (f @ ''('' @ x)"
    moreover have "\<not> sublist (g @ ''('') (f @ ''('' @ x)"
    proof (rule no_opener_in_call [OF ne _ _ xo])
      from trig_name_shape [OF g] trig_name_shape [OF f] show "length f = length g"
        by simp
      from trig_name_shape [OF f] show "CHR ''('' \<notin> set f"
        by simp
    qed
    ultimately show False
      by simp
  next
    assume "sublist (g @ ''('') (take (length g) rest)"
    then have "length (g @ ''('') \<le> length (take (length g) rest)"
      by (rule sublist_length_le)
    then show False
      by simp
  qed
qed

lemma sub_trig_one_call:
  assumes g: "g \<in> set trig_funcs" and c: "flat_call (pre, f, x)"
  shows "sub_trig g (pre @ f @ ''('' @ x @ '')'' @ rest) =
           pre @ f @ ''('' @ (if f = g then x @ '' * pi/180'' else x) @ '')'' @ sub_trig g rest"
proof -
  from c have pre: "opener_free pre" and f: "f \<in> set trig_funcs" and x: "x \<noteq> []"
    and xo: "CHR ''('' \<notin> set x" and xc: "CHR '')'' \<notin> set x"
    by (simp_all add: flat_call_def)
  have a: "sub_trig g (pre @ f @ ''('' @ x @ '')'' @ rest) =
      pre @ sub_trig g (f @ ''('' @ x @ '')'' @ rest)"
    using g f pre by (rule skip_pre)
  show ?thesis
  proof (cases "f = g")
    case True
    have "sub_trig g (g @ ''('' @ x @ '')'' @ rest) =
        g @ ''('' @ x @ '' * pi/180)'' @ sub_trig g rest"
      using x xc by (rule sub_trig_hit)
    then have "sub_trig g (f @ ''('' @ x @ '')'' @ rest) =
        f @ ''('' @ (x @ '' * pi/180'') @ '')'' @ sub_trig g rest"
      using True by simp
    then show ?thesis
      unfolding a using True by simp
  next
    case False
    have "sub_trig g ((f @ ''('' @ x @ '')'') @ rest) =
        (f @ ''('' @ x @ '')'') @ sub_trig g rest"
      using g f False xo by (intro sub_trig_skip other_call_no_opener)
    then have "sub_trig g (f @ ''('' @ x @ '')'' @ rest) =
        f @ ''('' @ x @ '')'' @ sub_trig g rest"
      by simp
    then show ?thesis
      unfolding a using False by simp
  qed
qed

lemma sub_trig_calls:
  assumes "g \<in> set trig_funcs" and "\<forall>c\<in>set calls. flat_call c" and "opener_free post"
  shows "sub_trig g (calls_text calls post) = calls_text (map (mark g) calls) post"
  using assms(2)
proof (induction calls)
  case Nil
  from assms(1,3) have "\<not> sublist (g @ ''('') post"
    unfolding opener_free_def by (rule bspec [rotated])
  then show ?case
    by (simp add: sub_trig_no_opener)
next
  case (Cons c calls)
  obtain pre f x where c: "c = (pre, f, x)"
    by (cases c) auto
  with Cons.prems have fc: "flat_call (pre, f, x)" and rest: "\<forall>c\<in>set calls. flat_call c"
    by simp_all
  have "sub_trig g (calls_text (c # calls) post) =
      sub_trig g (pre @ f @ ''('' @ x @ '')'' @ calls_text calls post)"
    by (simp add: c)
  also have "\<dots> = pre @ f @ ''('' @ (if f = g then x @ '' * pi/180'' else x) @ '')'' @
      sub_trig g (calls_text calls post)"
    using assms(1) fc by (rule sub_trig_one_call)
  also have "sub_trig g (calls_text calls post) = calls_text (map (mark g) calls) post"
    using rest by (rule Cons.IH)
  also have "pre @ f @ ''('' @ (if f = g then x @ '' * pi/180'' else x) @ '')'' @
      calls_text (map (mark g) calls) post = calls_text (map (mark g) (c # calls)) post"
    by (simp add: c mark_def)
  finally show ?case .
qed

lemma calls_text_marked:
  "calls_text (map (\<lambda>c. case c of (pre, f, x) \<Rightarrow> (pre, f, x @ '' * pi/180'')) calls) post =
     calls_text_degrees calls post"
  by (induction calls post rule: calls_text.induct) simp_all

lemma mark_all:
  assumes "flat_call c"
  shows "mark ''csc'' (mark ''sec'' (mark ''cot'' (mark ''tan'' (mark ''cos'' (mark ''sin'' c))))) =
           (case c of (pre, f, x) \<Rightarrow> (pre, f, x @ '' * pi/180''))"
proof -
  obtain pre f x where c: "c = (pre, f, x)"
    by (cases c) auto
  with assms have "f \<in> set trig_funcs"
    by (simp add: flat_call_def)
  then consider "f = ''sin''" | "f = ''cos''" | "f = ''tan''" | "f = ''cot''"
    | "f = ''sec''" | "f = ''csc''"
    by (auto simp: trig_funcs_def)
  then show ?thesis
    by cases (simp_all add: c mark_def)
qed

lemma degrees_flat_calls:
  assumes "\<forall>c\<in>set calls. flat_call c" and "opener_free post"
  shows "handle_special_functions ''degrees'' (calls_text calls post) =
           calls_text_degrees calls post"
proof -
  have m: "\<forall>c\<in>set (map (mark g) cs). flat_call c" if "\<forall>c\<in>set cs. flat_call c" for g cs
    using that by (simp add: flat_call_mark)
  have in_trig: "''sin'' \<in> set trig_funcs" "''cos'' \<in> set trig_funcs"
    "''tan'' \<in> set trig_funcs" "''cot'' \<in> set trig_funcs" "''sec'' \<in> set trig_funcs"
    "''csc'' \<in> set trig_funcs"
    by (simp_all add: trig_funcs_def)
  let ?c1 = "map (mark ''sin'') calls"
  let ?c2 = "map (mark ''cos'') ?c1"
  let ?c3 = "map (mark ''tan'') ?c2"
  let ?c4 = "map (mark ''cot'') ?c3"
  let ?c5 = "map (mark ''sec'') ?c4"
  let ?c6 = "map (mark ''csc'') ?c5"
  have f1: "\<forall>c\<in>set ?c1. flat_call c" using assms(1) by (rule m)
  have f2: "\<forall>c\<in>set ?c2. flat_call c" using f1 by (rule m)
  have f3: "\<forall>c\<in>set ?c3. flat_call c" using f2 by (rule m)
  have f4: "\<forall>c\<in>set ?c4. flat_call c" using f3 by (rule m)
  have f5: "\<forall>c\<in>set ?c5. flat_call c" using f4 by (rule m)
  have "handle_special_functions ''degrees'' (calls_text calls post) =
      sub_trig ''csc'' (sub_trig ''sec'' (sub_trig ''cot'' (sub_trig ''tan''
        (sub_trig ''cos'' (sub_trig ''sin'' (calls_text calls post))))))"
    by (simp add: handle_special_functions_def trig_funcs_def)
  also have "\<dots> = calls_text ?c6 post"
    by (simp only: sub_trig_calls [OF in_trig(1) assms(1) assms(2)]
        sub_trig_calls [OF in_trig(2) f1 assms(2)] sub_trig_calls [OF in_trig(3) f2 assms(2)]
        sub_trig_calls [OF in_trig(4) f3 assms(2)] sub_trig_calls [OF in_trig(5) f4 assms(2)]
        sub_trig_calls [OF in_trig(6) f5 assms(2)])
  also have "?c6 = map (\<lambda>c. case c of (pre, f, x) \<Rightarrow> (pre, f, x @ '' * pi/180'')) calls"
    using assms(1) by (simp add: mark_all)
  finally show ?thesis
    by (simp only: calls_text_marked)
qed

section \<open>The rewriting only lengthens the text\<close>

lemma match_call_decomp:
  assumes "match_call g s = Some (arg, rest)"
  shows "s = g @ ''('' @ arg @ '')'' @ rest"
proof -
  let ?P = "\<lambda>c. c \<noteq> CHR '')''"
  let ?t = "drop (length g + 1) s"
  from assms have p: "prefix (g @ ''('') s" and a: "arg = takeWhile ?P ?t"
    and d: "dropWhile ?P ?t \<noteq> []" and r: "rest = tl (dropWhile ?P ?t)"
    by (auto simp: match_call_def Let_def split: if_splits)
  from p obtain t' where "s = (g @ ''('') @ t'"
    by (auto simp: prefix_def)
  then have s: "s = (g @ ''('') @ ?t"
    by simp
  from d have "\<not> ?P (hd (dropWhile ?P ?t))"
    by (rule hd_dropWhile)
  with d r have "dropWhile ?P ?t = CHR '')'' # rest"
    by (cases "dropWhile ?P ?t") auto
  with a have "?t = arg @ CHR '')'' # rest"
    by (metis takeWhile_dropWhile_id)
  with s show ?thesis
    by (metis append.assoc append_Cons append_Nil)
qed

lemma sub_trig_Some:
  "match_call g (c # cs) = Some (arg, rest) \<Longrightarrow>
   sub_trig g (c # cs) = g @ ''('' @ arg @ '' * pi/180)'' @ sub_trig g rest"
  by simp

lemma sub_trig_None:
  "match_call g (c # cs) = None \<Longrightarrow> sub_trig g (c # cs) = c # sub_trig g cs"
  by simp

lemma sub_trig_length: "length s \<le> length (sub_trig g s)"
proof (induction "length s" arbitrary: s rule: less_induct)
  case less
  show ?case
  proof (cases s)
    case Nil
    then show ?thesis by simp
  next
    case (Cons c cs)
    show ?thesis
    proof (cases "match_call g (c # cs)")
      case None
      then have "sub_trig g (c # cs) = c # sub_trig g cs"
        by (rule sub_trig_None)
      moreover have "length cs \<le> length (sub_trig g cs)"
        using less.hyps [of cs] Cons by simp
      ultimately show ?thesis
        using Cons by simp
    next
      case (Some ar)
      obtain arg rest where ar: "ar = (arg, rest)"
        by (cases ar) auto
      with Some have m: "match_call g (c # cs) = Some (arg, rest)"
        by simp
      then have d: "c # cs = g @ ''('' @ arg @ '')'' @ rest"
        by (rule match_call_decomp)
      have l: "length s = length g + length arg + length rest + 2"
        unfolding Cons d by simp
      then have "length rest \<le> length (sub_trig g rest)"
        using less.hyps [of rest] by simp
      moreover from m have "sub_trig g (c # cs) =
          g @ ''('' @ arg @ '' * pi/180)'' @ sub_trig g rest"
        by (rule sub_trig_Some)
      then have "length (sub_trig g s) = length g + length arg + length (sub_trig g rest) + 11"
        unfolding Cons by simp
      ultimately show ?thesis
        using l by linarith
    qed
  qed
qed

lemma sub_trig_same_length: "length (sub_trig g s) = length s \<Longrightarrow> sub_trig g s = s"
proof (induction s)
  case Nil
  then show ?case by simp
next
  case (Cons c cs)
  show ?case
  proof (cases "match_call g (c # cs)")
    case None
    then have u: "sub_trig g (c # cs) = c # sub_trig g cs"
      by (rule sub_trig_None)
    with Cons.prems have "length (sub_trig g cs) = length cs"
      by simp
    then have "sub_trig g cs = cs"
      by (rule Cons.IH)
    with u show ?thesis by simp
  next
    case (Some ar)
    obtain arg rest where ar: "ar = (arg, rest)"
      by (cases ar) auto
    with Some have m: "match_call g (c # cs) = Some (arg, rest)"
      by simp
    then have d: "c # cs = g @ ''('' @ arg @ '')'' @ rest"
      by (rule match_call_decomp)
    have l: "length (c # cs) = length g + length arg + length rest + 2"
      unfolding d by simp
    from m have "sub_trig g (c # cs) = g @ ''('' @ arg @ '' * pi/180)'' @ sub_trig g rest"
      by (rule sub_trig_Some)
    then have "length (sub_trig g (c # cs)) =
        length g + length arg + length (sub_trig g rest) + 11"
      by simp
    moreover have "length rest \<le> length (sub_trig g rest)"
      by (rule sub_trig_length)
    ultimately have "length (c # cs) < length (sub_trig g (c # cs))"
      using l by linarith
    with Cons.prems show ?thesis
      by simp
  qed
qed

lemma sub_trig_grows:
  assumes "x \<noteq> []" and "CHR '')'' \<notin> set x"
  shows "sublist (g @ ''('' @ x @ '')'') s \<Longrightarrow> length s < length (sub_trig g s)"
proof (induction s)
  case Nil
  then show ?case by simp
next
  case (Cons c cs)
  show ?case
  proof (cases "match_call g (c # cs)")
    case None
    have "\<not> prefix (g @ ''('' @ x @ '')'') (c # cs)"
    proof
      assume "prefix (g @ ''('' @ x @ '')'') (c # cs)"
      then obtain rest where "c # cs = g @ ''('' @ x @ '')'' @ rest"
        by (auto simp: prefix_def)
      with match_call_hit [OF assms, of g rest] None show False
        by simp
    qed
    with Cons.prems have "sublist (g @ ''('' @ x @ '')'') cs"
      by (simp add: sublist_Cons_right)
    then have "length cs < length (sub_trig g cs)"
      by (rule Cons.IH)
    moreover from None have "sub_trig g (c # cs) = c # sub_trig g cs"
      by (rule sub_trig_None)
    ultimately show ?thesis by simp
  next
    case (Some ar)
    obtain arg rest where ar: "ar = (arg, rest)"
      by (cases ar) auto
    with Some have m: "match_call g (c # cs) = Some (arg, rest)"
      by simp
    then have d: "c # cs = g @ ''('' @ arg @ '')'' @ rest"
      by (rule match_call_decomp)
    have l: "length (c # cs) = length g + length arg + length rest + 2"
      unfolding d by simp
    from m have "sub_trig g (c # cs) = g @ ''('' @ arg @ '' * pi/180)'' @ sub_trig g rest"
      by (rule sub_trig_Some)
    then have "length (sub_trig g (c # cs)) =
        length g + length arg + length (sub_trig g rest) + 11"
      by simp
    moreover have "length rest \<le> length (sub_trig g rest)"
      by (rule sub_trig_length)
    ultimately show ?thesis
      using l by linarith
  qed
qed

lemma fold_sub_trig_length: "length s \<le> length (fold sub_trig gs s)"
proof (induction gs arbitrary: s)
  case Nil
  then show ?case by simp
next
  case (Cons g gs)
  have "length s \<le> length (sub_trig g s)"
    by (rule sub_trig_length)
  also have "\<dots> \<le> length (fold sub_trig gs (sub_trig g s))"
    by (rule Cons.IH)
  finally show ?case by simp
qed

lemma fold_sub_trig_grows:
  assumes "x \<noteq> []" and "CHR '')'' \<notin> set x"
  shows "g \<in> set gs \<Longrightarrow> sublist (g @ ''('' @ x @ '')'') s \<Longrightarrow>
         length s < length (fold sub_trig gs s)"
proof (induction gs arbitrary: s)
  case Nil
  then show ?case by simp
next
  case (Cons h gs)
  show ?case
  proof (cases "sub_trig h s = s")
    case True
    show ?thesis
    proof (cases "h = g")
      case g: True
      from Cons.prems(2) have "length s < length (sub_trig g s)"
        by (rule sub_trig_grows [OF assms])
      with True g show ?thesis by simp
    next
      case False
      with Cons.prems(1) have "g \<in> set gs"
        by simp
      then have "length s < length (fold sub_trig gs s)"
        using Cons.prems(2) by (rule Cons.IH)
      with True show ?thesis by simp
    qed
  next
    case False
    then have "length (sub_trig h s) \<noteq> length s"
      using sub_trig_same_length by blast
    moreover have "length s \<le> length (sub_trig h s)"
      by (rule sub_trig_length)
    ultimately have "length s < length (sub_trig h s)"
      by linarith
    also have "\<dots> \<le> length (fold sub_trig gs (sub_trig h s))"
      by (rule fold_sub_trig_length)
    finally show ?thesis by simp
  qed
qed

lemma takeWhile_closing_prefix:
  "prefix (takeWhile (\<lambda>d. d \<noteq> c) x @ [c]) (x @ [c])"
  by (induction x) auto

lemma degrees_changes_call:
  assumes f: "f \<in> set trig_funcs" and x: "x \<noteq> []" "hd x \<noteq> CHR '')''"
    and s: "sublist (f @ ''('' @ x @ '')'') s"
  shows "handle_special_functions ''degrees'' s \<noteq> s"
proof -
  let ?x = "takeWhile (\<lambda>c. c \<noteq> CHR '')'') x"
  from x have x1: "?x \<noteq> []"
    by (cases x) auto
  have x2: "CHR '')'' \<notin> set ?x"
  proof
    assume "CHR '')'' \<in> set ?x"
    from set_takeWhileD [OF this] show False
      by simp
  qed
  have "prefix (?x @ '')'') (x @ '')'')"
    by (rule takeWhile_closing_prefix)
  then have "prefix ((f @ ''('') @ ?x @ '')'') ((f @ ''('') @ x @ '')'')"
    by (simp only: same_prefix_prefix)
  then have "prefix (f @ ''('' @ ?x @ '')'') (f @ ''('' @ x @ '')'')"
    by (simp only: append_assoc)
  then have "sublist (f @ ''('' @ ?x @ '')'') (f @ ''('' @ x @ '')'')"
    by (rule prefix_imp_sublist)
  then have "sublist (f @ ''('' @ ?x @ '')'') s"
    using s by (rule sublist_order.order_trans)
  with f have lt: "length s < length (fold sub_trig trig_funcs s)"
    by (rule fold_sub_trig_grows [OF x1 x2])
  have "fold sub_trig trig_funcs s \<noteq> s"
  proof
    assume "fold sub_trig trig_funcs s = s"
    then have "length (fold sub_trig trig_funcs s) = length s"
      by (rule arg_cong)
    with lt show False
      by linarith
  qed
  then show ?thesis
    by (simp add: handle_special_functions_def)
qed

section \<open>Degrees mode\<close>





section \<open>Inverse trig functions in degrees mode\<close>

lemma calls_text_append:
  "calls_text (before @ after) post = calls_text before (calls_text after post)"
  by (induction before post rule: calls_text.induct) simp_all

lemma calls_text_degrees_append:
  "calls_text_degrees (before @ after) post =
     calls_text_degrees before (calls_text_degrees after post)"
  by (induction before post rule: calls_text_degrees.induct) simp_all

lemma opener_free_a:
  assumes "opener_free pre"
  shows "opener_free (pre @ ''a'')"
  unfolding opener_free_def
proof
  fix g
  assume g: "g \<in> set trig_funcs"
  show "\<not> sublist (g @ ''('') (pre @ ''a'')"
  proof
    assume s: "sublist (g @ ''('') (pre @ ''a'')"
    have "CHR ''('' \<notin> set ''a''"
      by simp
    then have "sublist (g @ ''('') pre"
      using s by (rule sublist_last_in)
    moreover from assms g have "\<not> sublist (g @ ''('') pre"
      by (simp add: opener_free_def)
    ultimately show False
      by simp
  qed
qed

text \<open>
  C10, as stated (the pattern matches a trig name also as the end of a longer name, so for
  every expression containing an inverse-trig call such as \<open>asin(x)\<close> the argument of that
  call is multiplied by \<open>pi/180\<close> in degrees mode, changing the result relative to radians
  mode), fails on both counts. In \<open>asin((1+x)/2)\<close> the match ends at the first \<open>)\<close> and
  the factor is put behind \<open>1+x\<close>, a part of the argument. In \<open>cos(asin(1))\<close> the pass for
  \<open>cos\<close> and the pass for \<open>sin\<close> each put the factor behind \<open>1\<close>, so the argument is
  multiplied twice. And \<open>asin(0)\<close> is evaluated as \<open>asin(0 * pi/180)\<close>, of which the library
  makes the same \<open>0\<close>: the result is \<open>0.0\<close> in degrees mode and in radians mode.
\<close>

theorem inverse_trig_counterexample:
  "preprocess ''degrees'' ''asin((1+x)/2)'' = ''asin((1+x * pi/180)/2)'' \<and>
   preprocess ''degrees'' ''cos(asin(1))'' = ''cos(asin(1 * pi/180 * pi/180))'' \<and>
   \<not> sublist ''asin(1 * pi/180)'' (preprocess ''degrees'' ''cos(asin(1))'') \<and>
   preprocess ''degrees'' ''asin(0)'' = ''asin(0 * pi/180)'' \<and>
   preprocess ''radians'' ''asin(0)'' = ''asin(0)'' \<and>
   evaluate asin_sympy ''degrees'' ''asin(0)'' = Inr (PyFloat 0) \<and>
   evaluate asin_sympy ''radians'' ''asin(0)'' = Inr (PyFloat 0)"
proof -
  have a: "preprocess ''degrees'' ''asin((1+x)/2)'' = ''asin((1+x * pi/180)/2)''"
    by (simp add: scan_defs)
  have b: "preprocess ''degrees'' ''cos(asin(1))'' = ''cos(asin(1 * pi/180 * pi/180))''"
    by (simp add: scan_defs)
  have "\<not> sublist ''asin(1 * pi/180)'' ''cos(asin(1 * pi/180 * pi/180))''"
    by (simp add: sublist_Cons_right)
  with b have c: "\<not> sublist ''asin(1 * pi/180)'' (preprocess ''degrees'' ''cos(asin(1))'')"
    by simp
  have d: "preprocess ''degrees'' ''asin(0)'' = ''asin(0 * pi/180)''"
    by (simp add: scan_defs)
  have e: "preprocess ''radians'' ''asin(0)'' = ''asin(0)''"
    by (simp add: scan_defs)
  have f: "evaluate asin_sympy ''degrees'' ''asin(0)'' = Inr (PyFloat 0)"
    by (simp add: evaluate_def evaluate_body_def classify_def d asin_sympy_def
        sample_sympy_def lookup_def)
  have g: "evaluate asin_sympy ''radians'' ''asin(0)'' = Inr (PyFloat 0)"
    by (simp add: evaluate_def evaluate_body_def classify_def e asin_sympy_def
        sample_sympy_def lookup_def)
  show ?thesis
    by (intro conjI a b c d e f g)
qed

text \<open>
  C10, amended: the pattern matches a trig name wherever it stands directly before \<open>(\<close>,
  also as the end of a longer name. In an expression that is a sequence of flat calls,
  with no trig name directly before a \<open>(\<close> anywhere else, the argument of an inverse-trig
  call \<open>af(x)\<close> (\<open>asin\<close>, \<open>acos\<close>, \<open>atan\<close>, ...) is multiplied by \<open>pi/180\<close> once in degrees
  mode, as is the argument of every other call of the sequence. And wherever an
  inverse-trig call stands in an expression, with any argument that does not start with
  \<open>)\<close>, the text evaluated in degrees mode differs from the text evaluated in radians
  mode; the result of the evaluation need not differ.
\<close>

theorem inverse_trig_rewritten:
  "((\<forall>c\<in>set before. flat_call c) \<and> flat_call (pre, f, x) \<and> (\<forall>c\<in>set after. flat_call c) \<and>
    opener_free post \<longrightarrow>
      handle_special_functions ''degrees''
        (calls_text before (pre @ ''a'' @ f @ ''('' @ x @ '')'' @ calls_text after post)) =
        calls_text_degrees before
          (pre @ ''a'' @ f @ ''('' @ x @ '' * pi/180)'' @ calls_text_degrees after post)) \<and>
   (f \<in> set trig_funcs \<and> x \<noteq> [] \<and> hd x \<noteq> CHR '')'' \<longrightarrow>
      handle_special_functions ''degrees'' (left @ ''a'' @ f @ ''('' @ x @ '')'' @ right) \<noteq>
      handle_special_functions ''radians'' (left @ ''a'' @ f @ ''('' @ x @ '')'' @ right))"
proof (intro conjI impI)
  assume h: "(\<forall>c\<in>set before. flat_call c) \<and> flat_call (pre, f, x) \<and>
    (\<forall>c\<in>set after. flat_call c) \<and> opener_free post"
  then have "opener_free pre"
    by (simp add: flat_call_def)
  then have "opener_free (pre @ ''a'')"
    by (rule opener_free_a)
  with h have "flat_call (pre @ ''a'', f, x)"
    by (simp add: flat_call_def)
  with h have "\<forall>c\<in>set (before @ (pre @ ''a'', f, x) # after). flat_call c"
    by auto
  moreover from h have "opener_free post"
    by simp
  ultimately have "handle_special_functions ''degrees''
      (calls_text (before @ (pre @ ''a'', f, x) # after) post) =
      calls_text_degrees (before @ (pre @ ''a'', f, x) # after) post"
    by (rule degrees_flat_calls)
  then show "handle_special_functions ''degrees''
      (calls_text before (pre @ ''a'' @ f @ ''('' @ x @ '')'' @ calls_text after post)) =
      calls_text_degrees before
        (pre @ ''a'' @ f @ ''('' @ x @ '' * pi/180)'' @ calls_text_degrees after post)"
    by (simp add: calls_text_append calls_text_degrees_append)
next
  assume h: "f \<in> set trig_funcs \<and> x \<noteq> [] \<and> hd x \<noteq> CHR '')''"
  let ?s = "left @ ''a'' @ f @ ''('' @ x @ '')'' @ right"
  have "?s = (left @ ''a'') @ (f @ ''('' @ x @ '')'') @ right"
    by simp
  then have "sublist (f @ ''('' @ x @ '')'') ?s"
    by (simp only: sublist_appendI)
  with h have "handle_special_functions ''degrees'' ?s \<noteq> ?s"
    by (intro degrees_changes_call) simp_all
  moreover have "handle_special_functions ''radians'' ?s = ?s"
    by (simp add: handle_special_functions_def)
  ultimately show "handle_special_functions ''degrees'' ?s \<noteq>
      handle_special_functions ''radians'' ?s"
    by simp
qed

theorem inverse_trig_rewritten_witness:
  "(list_all flat_call [(''1+'', ''tan'', ''45'')] \<and> flat_call (''*'', ''sin'', ''0.5'') \<and>
    list_all flat_call [(''-a'', ''cos'', ''y'')] \<and> opener_free ''/2'') \<and>
   handle_special_functions ''degrees'' ''1+tan(45)*asin(0.5)-acos(y)/2'' =
     ''1+tan(45 * pi/180)*asin(0.5 * pi/180)-acos(y * pi/180)/2'' \<and>
   (''sin'' \<in> set trig_funcs \<and> ''1'' \<noteq> [] \<and> hd ''1'' \<noteq> CHR '')'') \<and>
   handle_special_functions ''degrees'' ''cos(asin(1))'' \<noteq>
     handle_special_functions ''radians'' ''cos(asin(1))''"
proof -
  have a: "(\<forall>c\<in>set [(''1+'', ''tan'', ''45'')]. flat_call c) \<and>
      flat_call (''*'', ''sin'', ''0.5'') \<and>
      (\<forall>c\<in>set [(''-a'', ''cos'', ''y'')]. flat_call c) \<and> opener_free ''/2''"
    by (simp add: flat_call_def opener_free_def trig_funcs_def sublist_Cons_right)
  have b: "''sin'' \<in> set trig_funcs \<and> ''1'' \<noteq> [] \<and> hd ''1'' \<noteq> CHR '')''"
    by (simp add: trig_funcs_def)
  have "handle_special_functions ''degrees''
        (calls_text [(''1+'', ''tan'', ''45'')]
          (''*'' @ ''a'' @ ''sin'' @ ''('' @ ''0.5'' @ '')'' @
            calls_text [(''-a'', ''cos'', ''y'')] ''/2'')) =
      calls_text_degrees [(''1+'', ''tan'', ''45'')]
        (''*'' @ ''a'' @ ''sin'' @ ''('' @ ''0.5'' @ '' * pi/180)'' @
          calls_text_degrees [(''-a'', ''cos'', ''y'')] ''/2'')"
    by (rule inverse_trig_rewritten [THEN conjunct1, THEN mp, OF a])
  then have c: "handle_special_functions ''degrees'' ''1+tan(45)*asin(0.5)-acos(y)/2'' =
      ''1+tan(45 * pi/180)*asin(0.5 * pi/180)-acos(y * pi/180)/2''"
    by simp
  have "handle_special_functions ''degrees''
        (''cos('' @ ''a'' @ ''sin'' @ ''('' @ ''1'' @ '')'' @ '')'') \<noteq>
      handle_special_functions ''radians''
        (''cos('' @ ''a'' @ ''sin'' @ ''('' @ ''1'' @ '')'' @ '')'')"
    by (rule inverse_trig_rewritten [THEN conjunct2, THEN mp, OF b])
  then have d: "handle_special_functions ''degrees'' ''cos(asin(1))'' \<noteq>
      handle_special_functions ''radians'' ''cos(asin(1))''"
    by simp
  have a': "list_all flat_call [(''1+'', ''tan'', ''45'')] \<and>
      flat_call (''*'', ''sin'', ''0.5'') \<and>
      list_all flat_call [(''-a'', ''cos'', ''y'')] \<and> opener_free ''/2''"
    using a unfolding list_all_iff .
  show ?thesis
    by (rule conjI [OF a' conjI [OF c conjI [OF b d]]])
qed

end
